theory Spec2Isabelle
  imports Main "HOL-Library.Char_ord" "HOL-Library.List_Lexorder"
begin

section \<open>Data model\<close>

text \<open>
  Modelled from the spec: the package \<^verbatim>\<open>internal/policies/entry\<close> (the type
  \<^verbatim>\<open>entry.Entry\<close> and the constants \<^verbatim>\<open>entry.StrategyAppend\<close>,
  \<^verbatim>\<open>entry.StrategyOverride\<close>) is not among the sources. The spec's Rule Entry has a
  key, a value, a conflict strategy, a disabled flag and provenance metadata; the
  domain of an entry is the key of the map that holds it. \<^verbatim>\<open>GetUniqueRules\<close> only
  compares the strategy with \<^verbatim>\<open>StrategyAppend\<close> and takes every other value as the
  override case (the \<^verbatim>\<open>default\<close> branch of its switch), so the strategy is kept as
  a string: the empty string of a zero \<^verbatim>\<open>Entry\<close> is then an override as well.
\<close>

record Entry =
  Key :: string
  Value :: string
  Disabled :: bool
  Meta :: string
  Strategy :: string

definition StrategyAppend :: string where
  "StrategyAppend = ''append''"

definition StrategyOverride :: string where
  "StrategyOverride = ''override''"

text \<open>The zero value of \<^verbatim>\<open>entry.Entry\<close>: what Go reads from a map at a missing key.\<close>

definition zeroEntry :: Entry where
  "zeroEntry = \<lparr>Key = [], Value = [], Disabled = False, Meta = [], Strategy = []\<rparr>"

text \<open>
  Modelled from the spec: the type \<^verbatim>\<open>GPO\<close> of this package is declared in a file
  that is not among the sources. The spec gives it a name and the rules, a mapping
  from policy domain to an ordered sequence of entries. Go iterates over a map in an
  unspecified order; \<open>Rules\<close> is the association list of the map in the order in
  which one run of \<^verbatim>\<open>range gpo.Rules\<close> visits it, and the theorems hold for every
  such order.
\<close>

record GPO =
  Name :: string
  Rules :: "(string \<times> Entry list) list"

text \<open>
  \<^verbatim>\<open>type Policies struct { GPOs []GPO; Data io.ReaderAt `yaml:"-"` }\<close>. The reader
  is opaque here: \<open>None\<close> is the nil interface.
\<close>

record Policies =
  GPOs :: "GPO list"
  Data :: "string option"

section \<open>The merge engine: GetUniqueRules\<close>

text \<open>
  The three maps the loop of \<^verbatim>\<open>GetUniqueRules\<close> fills: \<^verbatim>\<open>dedup\<close>
  (type to key to entry), \<^verbatim>\<open>keys\<close> (type to the keys in insertion order; a
  missing type reads as the nil slice) and \<^verbatim>\<open>seen\<close> (the set of strings
  \<^verbatim>\<open>t+e.Key\<close>).
\<close>

record MergeState =
  dedup :: "string \<rightharpoonup> (string \<rightharpoonup> Entry)"
  keys :: "string \<Rightarrow> string list"
  seen :: "string set"

definition initState :: MergeState where
  "initState = \<lparr>dedup = Map.empty, keys = (\<lambda>t. []), seen = {}\<rparr>"

text \<open>\<^verbatim>\<open>dedup[t][k]\<close> as an expression: the zero entry when either key is missing.\<close>

definition lookupEntry :: "(string \<rightharpoonup> (string \<rightharpoonup> Entry)) \<Rightarrow> string \<Rightarrow> string \<Rightarrow> Entry" where
  "lookupEntry dd t k =
     (case dd t of
        None \<Rightarrow> zeroEntry
      | Some m \<Rightarrow> (case m k of None \<Rightarrow> zeroEntry | Some e \<Rightarrow> e))"

text \<open>
  \<^verbatim>\<open>dedup[t][k] = e\<close>. The loop creates \<^verbatim>\<open>dedup[t]\<close> before it visits the
  entries of \<open>t\<close> (see \<open>processDomain\<close>), so the inner map exists at every store.
\<close>

definition storeEntry ::
  "(string \<rightharpoonup> (string \<rightharpoonup> Entry)) \<Rightarrow> string \<Rightarrow> string \<Rightarrow> Entry \<Rightarrow> (string \<rightharpoonup> (string \<rightharpoonup> Entry))" where
  "storeEntry dd t k e =
     dd(t \<mapsto> (case dd t of None \<Rightarrow> Map.empty | Some m \<Rightarrow> m)(k \<mapsto> e))"

text \<open>
  The two statements that end an iteration which did not \<^verbatim>\<open>continue\<close>:
  \<^verbatim>\<open>keys[t] = append(keys[t], e.Key); seen[t+e.Key] = struct{}{}\<close>.
\<close>

definition markSeen :: "string \<Rightarrow> string \<Rightarrow> MergeState \<Rightarrow> MergeState" where
  "markSeen t k st =
     st\<lparr>keys := (keys st)(t := keys st t @ [k]), seen := insert (t @ k) (seen st)\<rparr>"

text \<open>The value an append entry gets when it meets an existing one, and its metadata.\<close>

definition appendTo :: "Entry \<Rightarrow> Entry \<Rightarrow> Entry" where
  "appendTo e old = e\<lparr>Value := Value e @ [CHR 0x0A] @ Value old, Meta := Meta old\<rparr>"

text \<open>The body of the innermost loop, for one entry \<open>e\<close> of type \<open>t\<close>.\<close>

definition processEntry :: "string \<Rightarrow> MergeState \<Rightarrow> Entry \<Rightarrow> MergeState" where
  "processEntry t st e =
     (if Strategy e = StrategyAppend then
        (if Disabled e then st
         else if t @ Key e \<in> seen st then
           (if Strategy (lookupEntry (dedup st) t (Key e)) \<noteq> StrategyAppend then st
            else st\<lparr>dedup := storeEntry (dedup st) t (Key e)
                              (appendTo e (lookupEntry (dedup st) t (Key e)))\<rparr>)
         else markSeen t (Key e) (st\<lparr>dedup := storeEntry (dedup st) t (Key e) e\<rparr>))
      else
        (if t @ Key e \<in> seen st then st
         else markSeen t (Key e) (st\<lparr>dedup := storeEntry (dedup st) t (Key e) e\<rparr>)))"

text \<open>\<^verbatim>\<open>if dedup[t] == nil { dedup[t] = make(...) }\<close>\<close>

definition initDomain :: "string \<Rightarrow> MergeState \<Rightarrow> MergeState" where
  "initDomain t st =
     (if dedup st t = None then st\<lparr>dedup := (dedup st)(t \<mapsto> Map.empty)\<rparr> else st)"

text \<open>One iteration of \<^verbatim>\<open>for t, entries := range gpo.Rules\<close>.\<close>

definition processDomain :: "MergeState \<Rightarrow> string \<times> Entry list \<Rightarrow> MergeState" where
  "processDomain st te = foldl (processEntry (fst te)) (initDomain (fst te) st) (snd te)"

text \<open>One iteration of \<^verbatim>\<open>for _, gpo := range pols.GPOs\<close>.\<close>

definition processGPO :: "MergeState \<Rightarrow> GPO \<Rightarrow> MergeState" where
  "processGPO st gpo = foldl processDomain st (Rules gpo)"

definition dedupLoop :: "MergeState \<Rightarrow> GPO list \<Rightarrow> MergeState" where
  "dedupLoop st gs = foldl processGPO st gs"

text \<open>
  The second loop: for each type of \<open>dedup\<close>, the keys sorted by
  \<^verbatim>\<open>sort.Strings\<close> (bytewise order) and the entry of each. The result is the map
  \<open>r\<close>; a type that no GPO names is absent from it.
\<close>

definition emitRules :: "MergeState \<Rightarrow> (string \<rightharpoonup> Entry list)" where
  "emitRules st =
     (\<lambda>t. case dedup st t of
            None \<Rightarrow> None
          | Some d \<Rightarrow> Some (map (lookupEntry (dedup st) t) (sort (keys st t))))"

definition GetUniqueRules :: "Policies \<Rightarrow> (string \<rightharpoonup> Entry list)" where
  "GetUniqueRules pols = emitRules (dedupLoop initState (GPOs pols))"

text \<open>\<^verbatim>\<open>rules[t]\<close> as an expression: the nil slice when \<open>t\<close> is missing.\<close>

definition rulesOf :: "(string \<rightharpoonup> Entry list) \<Rightarrow> string \<Rightarrow> Entry list" where
  "rulesOf r t = (case r t of None \<Rightarrow> [] | Some es \<Rightarrow> es)"

text \<open>
  The order in which the first loop visits the entries of a policy set, each with its
  type: GPO by GPO (index 0, the closest, first), type by type, entry by entry.
\<close>

definition visits :: "GPO list \<Rightarrow> (string \<times> Entry) list" where
  "visits gs =
     concat (map (\<lambda>g. concat (map (\<lambda>te. map (Pair (fst te)) (snd te)) (Rules g))) gs)"

text \<open>
  An entry that the loop skips at its first test: a disabled append entry. Every other
  entry either finds \<^verbatim>\<open>t+e.Key\<close> in \<open>seen\<close> or puts it there.
\<close>

definition skipped :: "Entry \<Rightarrow> bool" where
  "skipped e \<longleftrightarrow> Strategy e = StrategyAppend \<and> Disabled e"

text \<open>
  The enabled append entries of type \<open>t\<close> and key \<open>k\<close> among the visited entries, in
  the order of the visit (closest first).
\<close>

definition appendChain :: "(string \<times> Entry) list \<Rightarrow> string \<Rightarrow> string \<Rightarrow> Entry list" where
  "appendChain vs t k =
     map snd (filter (\<lambda>te. fst te = t \<and> Key (snd te) = k \<and>
                            Strategy (snd te) = StrategyAppend \<and> \<not> Disabled (snd te)) vs)"

text \<open>\<^verbatim>\<open>strings.Join(vs, "\n")\<close>, to state what an append chain adds up to.\<close>

fun joinLines :: "string list \<Rightarrow> string" where
  "joinLines [] = []"
| "joinLines [v] = v"
| "joinLines (v # w # vs) = v @ [CHR 0x0A] @ joinLines (w # vs)"

text \<open>A policy set without its disabled append entries; every type keeps its place.\<close>

definition dropSkipped :: "Policies \<Rightarrow> Policies" where
  "dropSkipped pols =
     pols\<lparr>GPOs := map (\<lambda>g. g\<lparr>Rules := map (\<lambda>te. (fst te, filter (\<lambda>e. \<not> skipped e) (snd te)))
                                            (Rules g)\<rparr>) (GPOs pols)\<rparr>"

text \<open>
  Setting the disabled flag of the override entries (every entry whose strategy is not
  append) to \<open>b\<close>, in an entry, in a policy set and in the state of the loop.
\<close>

definition setOverrideDisabled :: "bool \<Rightarrow> Entry \<Rightarrow> Entry" where
  "setOverrideDisabled b e = (if Strategy e = StrategyAppend then e else e\<lparr>Disabled := b\<rparr>)"

definition mapEntries :: "(Entry \<Rightarrow> Entry) \<Rightarrow> GPO list \<Rightarrow> GPO list" where
  "mapEntries f gs = map (\<lambda>g. g\<lparr>Rules := map (\<lambda>te. (fst te, map f (snd te))) (Rules g)\<rparr>) gs"

definition mapState :: "(Entry \<Rightarrow> Entry) \<Rightarrow> MergeState \<Rightarrow> MergeState" where
  "mapState f st = st\<lparr>dedup := (\<lambda>t. map_option (\<lambda>m k. map_option f (m k)) (dedup st t))\<rparr>"

text \<open>The entry stored at \<^verbatim>\<open>dedup[t][k]\<close>, if there is one.\<close>

definition entryAt :: "(string \<rightharpoonup> (string \<rightharpoonup> Entry)) \<Rightarrow> string \<Rightarrow> string \<Rightarrow> Entry option" where
  "entryAt dd t k = (case dd t of None \<Rightarrow> None | Some m \<Rightarrow> m k)"

text \<open>
  What the loop keeps true: the keys of a type are distinct, each has been marked as
  seen, and each has its entry in \<open>dedup\<close>, stored under the entry's own key.
\<close>

definition mergeInv :: "MergeState \<Rightarrow> bool" where
  "mergeInv st \<longleftrightarrow>
     (\<forall>t. distinct (keys st t)) \<and>
     (\<forall>t k. k \<in> set (keys st t) \<longrightarrow> t @ k \<in> seen st) \<and>
     (\<forall>t k. k \<in> set (keys st t) \<longrightarrow> (\<exists>e. entryAt (dedup st) t k = Some e \<and> Key e = k)) \<and>
     (\<forall>t k e. entryAt (dedup st) t k = Some e \<longrightarrow> k \<in> set (keys st t))"

text \<open>No entry stored in \<open>dedup\<close> is a disabled append entry.\<close>

definition noSkipped :: "MergeState \<Rightarrow> bool" where
  "noSkipped s \<longleftrightarrow> (\<forall>t k d. entryAt (dedup s) t k = Some d \<longrightarrow> \<not> skipped d)"

text \<open>
  What the loop keeps true of the pair \<open>(t, k)\<close> after the visits \<open>p\<close>: while
  \<^verbatim>\<open>t+k\<close> is unseen no enabled append entry of the pair has been visited, and an
  append entry stored for the pair has the values of all of them, the last visited
  first, and the metadata of the first visited.
\<close>

definition chainOk :: "(string \<times> Entry) list \<Rightarrow> MergeState \<Rightarrow> string \<Rightarrow> string \<Rightarrow> bool" where
  "chainOk p s t k \<longleftrightarrow>
     (t @ k \<notin> seen s \<longrightarrow> appendChain p t k = []) \<and>
     (\<forall>d. entryAt (dedup s) t k = Some d \<longrightarrow> Strategy d = StrategyAppend \<longrightarrow>
          appendChain p t k \<noteq> [] \<and>
          Value d = joinLines (rev (map Value (appendChain p t k))) \<and>
          Meta d = Meta (hd (appendChain p t k)))"

text \<open>
  Every string in \<open>seen\<close> is the \<^verbatim>\<open>t+e.Key\<close> of a visited entry that is not a
  disabled append entry.
\<close>

definition seenFrom :: "(string \<times> Entry) list \<Rightarrow> MergeState \<Rightarrow> bool" where
  "seenFrom p s \<longleftrightarrow>
     (\<forall>x \<in> seen s. \<exists>te \<in> set p. \<not> skipped (snd te) \<and> fst te @ Key (snd te) = x)"

section \<open>The orchestrator: ApplyPolicies\<close>

text \<open>
  Go's \<^verbatim>\<open>error\<close> values. A backend, the YAML library and the operating system
  fail with errors of their own (\<open>Failure\<close>).

  Modelled from the spec: the package \<^verbatim>\<open>internal/decorate\<close> is not among the
  sources. By the spec an error leaves \<^verbatim>\<open>ApplyPolicies\<close> "wrapped with the target
  name for context": \<open>OnError\<close> keeps the format, its arguments and the error it
  wraps, and leaves a nil error alone.
\<close>

datatype error =
  Failure string
| Decorated string "string list" error

definition OnError :: "string \<Rightarrow> string list \<Rightarrow> error option \<Rightarrow> error option" where
  "OnError format args err = map_option (Decorated format args) err"

text \<open>
  The value of a D-Bus property (\<^verbatim>\<open>dbus.Variant\<close>, whose \<^verbatim>\<open>Value()\<close> is an
  \<^verbatim>\<open>interface{}\<close>): a string or a value of another type.
\<close>

datatype Variant =
  VString string
| VBool bool
| VInt int
| VOther

text \<open>
  \<^verbatim>\<open>type Manager struct\<close>. The three backends are outside this package; each is
  the function from the arguments of its \<^verbatim>\<open>ApplyPolicy\<close> to the error it returns.
  \<open>subcriptionDbus\<close> is what the bus object answers to
  \<^verbatim>\<open>GetProperty(consts.SubcriptionDbusInterface + ".Status")\<close>: an error, or the
  property. The lock of the struct guards \<open>subscriptionEnabled\<close> only.
\<close>

record Manager =
  policiesCacheDir :: string
  dconf :: "string \<Rightarrow> bool \<Rightarrow> Entry list \<Rightarrow> error option"
  privilege :: "string \<Rightarrow> bool \<Rightarrow> Entry list \<Rightarrow> error option"
  gdm :: "Entry list \<Rightarrow> error option"
  subcriptionDbus :: "error + Variant"
  subscriptionEnabled :: bool

text \<open>
  The library functions the cache is written and read with, over a file system of
  type \<open>'fs\<close>: \<^verbatim>\<open>yaml.Marshal\<close> and \<^verbatim>\<open>yaml.Unmarshal\<close> of a
  \<^verbatim>\<open>Policies\<close> (its field \<^verbatim>\<open>Data\<close> is tagged \<^verbatim>\<open>yaml:"-"\<close>, so only the GPO
  list is written and read), \<^verbatim>\<open>os.WriteFile\<close> with mode 0600 (the error and the
  file system it leaves), \<^verbatim>\<open>os.ReadFile\<close> and \<^verbatim>\<open>filepath.Join\<close>.
\<close>

record 'fs Sys =
  Marshal :: "GPO list \<Rightarrow> error + string"
  Unmarshal :: "string \<Rightarrow> error + GPO list"
  WriteFile :: "'fs \<Rightarrow> string \<Rightarrow> string \<Rightarrow> error option \<times> 'fs"
  ReadFile :: "'fs \<Rightarrow> string \<Rightarrow> error + string"
  Join :: "string \<Rightarrow> string \<Rightarrow> string"

text \<open>\<^verbatim>\<open>func NewFromCache(p string) (pols Policies, err error)\<close>\<close>

definition NewFromCache :: "'fs Sys \<Rightarrow> 'fs \<Rightarrow> string \<Rightarrow> error + Policies" where
  "NewFromCache sys fs p =
     (case ReadFile sys fs p of
        Inl e \<Rightarrow> Inl (Decorated ''can't get cached policies from %s'' [p] e)
      | Inr d \<Rightarrow>
          (case Unmarshal sys d of
             Inl e \<Rightarrow> Inl (Decorated ''can't get cached policies from %s'' [p] e)
           | Inr gs \<Rightarrow> Inr \<lparr>GPOs = gs, Data = None\<rparr>))"

text \<open>\<^verbatim>\<open>func (pols *Policies) Save(p string) (err error)\<close>: the error and the file system.\<close>

definition Save :: "'fs Sys \<Rightarrow> 'fs \<Rightarrow> Policies \<Rightarrow> string \<Rightarrow> error option \<times> 'fs" where
  "Save sys fs pols p =
     (case Marshal sys (GPOs pols) of
        Inl e \<Rightarrow> (OnError ''can't save policies to %s'' [p] (Some e), fs)
      | Inr d \<Rightarrow>
          (case WriteFile sys fs p d of
             (werr, fs') \<Rightarrow> (OnError ''can't save policies to %s'' [p] werr, fs')))"

text \<open>
  \<^verbatim>\<open>getSubcriptionState\<close>: the state it returns, and the manager with the flag its
  deferred function has stored.
\<close>

definition getSubcriptionState :: "Manager \<Rightarrow> bool \<times> Manager" where
  "getSubcriptionState m =
     (let subscriptionEnabled' =
            (case subcriptionDbus m of
               Inl err \<Rightarrow> False
             | Inr prop \<Rightarrow>
                 (case prop of
                    VString enabled \<Rightarrow> (if enabled \<noteq> ''enabled'' then False else True)
                  | _ \<Rightarrow> False))
      in (subscriptionEnabled', m\<lparr>subscriptionEnabled := subscriptionEnabled'\<rparr>))"

text \<open>\<^verbatim>\<open>GetStatus\<close>\<close>

definition GetStatus :: "Manager \<Rightarrow> bool" where
  "GetStatus m = subscriptionEnabled m"

text \<open>\<^verbatim>\<open>filterRules\<close>: \<^verbatim>\<open>rules["privilege"] = nil\<close>.\<close>

definition filterRules :: "(string \<rightharpoonup> Entry list) \<Rightarrow> (string \<rightharpoonup> Entry list)" where
  "filterRules rules = rules(''privilege'' \<mapsto> [])"

text \<open>
  What happens during one call of \<^verbatim>\<open>ApplyPolicies\<close>, in the order in which it
  happens: the call of a backend with its arguments, its return with its error, the
  refresh of the subscription state with its result, the filtering of the rules, and
  the write of the cache to a path.
\<close>

datatype Event =
  DconfCall string bool "Entry list"
| DconfReturn "error option"
| SubscriptionState bool
| FilterRules
| PrivilegeCall string bool "Entry list"
| PrivilegeReturn "error option"
| GdmCall "Entry list"
| GdmReturn "error option"
| SaveCall string

text \<open>
  The goroutine of \<^verbatim>\<open>g.Go\<close> for dconf runs beside the calling goroutine, which
  refreshes the subscription state, filters and then starts the goroutine for
  privilege. The scheduler's choices are a list \<open>bs\<close>: at each step \<open>True\<close> lets the
  first sequence advance and \<open>False\<close> the second; when the choices or one sequence run
  out, the rest follows. Every interleaving of the two is \<open>interleave bs\<close> for some
  \<open>bs\<close>.
\<close>

fun interleave :: "bool list \<Rightarrow> 'a list \<Rightarrow> 'a list \<Rightarrow> 'a list" where
  "interleave sched [] ys = ys"
| "interleave sched (x # xs) [] = x # xs"
| "interleave [] (x # xs) (y # ys) = (x # xs) @ (y # ys)"
| "interleave (b # sched) (x # xs) (y # ys) =
     (if b then x # interleave sched xs (y # ys) else y # interleave sched (x # xs) ys)"

text \<open>
  \<^verbatim>\<open>g.Wait()\<close>: all goroutines have returned, and the error is the first one that a
  goroutine of the group returned, if any.
\<close>

fun firstError :: "Event list \<Rightarrow> error option" where
  "firstError [] = None"
| "firstError (DconfReturn (Some e) # evs) = Some e"
| "firstError (PrivilegeReturn (Some e) # evs) = Some e"
| "firstError (ev # evs) = firstError evs"

text \<open>
  The closure of the dconf goroutine reads the map \<^verbatim>\<open>rules\<close> when it runs
  (\<^verbatim>\<open>rules["dconf"]\<close>), and \<^verbatim>\<open>filterRules\<close> writes the same map
  (\<^verbatim>\<open>rules["privilege"] = nil\<close>) in the calling goroutine; nothing orders the two.
  A Go map does not allow a read beside a write: when the two meet, the runtime ends
  the process (\<^verbatim>\<open>fatal error: concurrent map read and map write\<close>). A schedule
  is therefore the choices of the scheduler together with \<open>collision\<close>: whether the
  read of the dconf goroutine falls into a write of the calling goroutine.
\<close>

record Schedule =
  choices :: "bool list"
  collision :: bool

text \<open>
  The outcome of a call: the error, the events, the file system and the manager, and
  whether the runtime has ended the process during the call (\<open>fatal\<close>). A call that
  ends so returns nothing: its \<open>err\<close> is no returned value, \<open>trace\<close> holds what had
  happened until then, and \<open>files\<close> and \<open>manager\<close> are those of that moment.
\<close>

record 'fs Outcome =
  err :: "error option"
  trace :: "Event list"
  files :: 'fs
  manager :: Manager
  fatal :: bool

text \<open>
  The map \<open>rules\<close> after
  \<^verbatim>\<open>if !m.getSubcriptionState(ctx) { filterRules(ctx, rules) }\<close>.
\<close>

definition dispatchedRules :: "Manager \<Rightarrow> Policies \<Rightarrow> (string \<rightharpoonup> Entry list)" where
  "dispatchedRules m pols =
     (let rules = GetUniqueRules pols
      in if \<not> fst (getSubcriptionState m) then filterRules rules else rules)"

text \<open>
  The write of \<^verbatim>\<open>filterRules\<close> takes place only when the subscription check has
  returned false; with it the read of the dconf goroutine can collide.
\<close>

definition mapRace :: "Schedule \<Rightarrow> Manager \<Rightarrow> bool" where
  "mapRace sched m \<longleftrightarrow> \<not> fst (getSubcriptionState m) \<and> collision sched"

text \<open>
  The events of \<^verbatim>\<open>ApplyPolicies\<close> from the first \<^verbatim>\<open>g.Go\<close> until \<^verbatim>\<open>g.Wait()\<close>
  returns, or until the runtime ends the process. The dconf goroutine reads
  \<^verbatim>\<open>rules["dconf"]\<close> when it runs: before \<^verbatim>\<open>filterRules\<close>, after it (it changes
  \<^verbatim>\<open>rules["privilege"]\<close> only), or during it. In the last case the read is the
  first step of the dconf goroutine and the write comes right after the refresh of
  the subscription state, so that refresh is all that has happened when the process
  ends. The privilege goroutine is started after the filtering and reads the filtered
  map.
\<close>

definition waitGroup :: "Schedule \<Rightarrow> Manager \<Rightarrow> string \<Rightarrow> bool \<Rightarrow> Policies \<Rightarrow> Event list" where
  "waitGroup sched m objectName isComputer pols =
     (let rules = GetUniqueRules pols;
          enabled = fst (getSubcriptionState m);
          rules' = dispatchedRules m pols
      in if mapRace sched m then [SubscriptionState enabled]
         else interleave (choices sched)
           [DconfCall objectName isComputer (rulesOf rules ''dconf''),
            DconfReturn (dconf m objectName isComputer (rulesOf rules ''dconf''))]
           (SubscriptionState enabled # (if \<not> enabled then [FilterRules] else []) @
            [PrivilegeCall objectName isComputer (rulesOf rules' ''privilege''),
             PrivilegeReturn (privilege m objectName isComputer (rulesOf rules' ''privilege''))]))"

text \<open>
  \<^verbatim>\<open>ApplyPolicies\<close>: when the read and the write of the map collide, the process
  ends there: no backend has been called, nothing is returned and nothing is saved.
  Otherwise an error of the group ends the call; then, for a computer, gdm is applied
  and its error ends the call; then the policies are saved under the object's name in
  the cache directory. The deferred \<^verbatim>\<open>decorate.OnError\<close> wraps whatever error is
  returned.
\<close>

definition ApplyPolicies ::
  "'fs Sys \<Rightarrow> 'fs \<Rightarrow> Schedule \<Rightarrow> Manager \<Rightarrow> string \<Rightarrow> bool \<Rightarrow> Policies \<Rightarrow> 'fs Outcome" where
  "ApplyPolicies sys fs sched m objectName isComputer pols =
     (let m' = snd (getSubcriptionState m);
          rules' = dispatchedRules m pols;
          waited = waitGroup sched m objectName isComputer pols;
          decorated = OnError ''failed to apply policy to %q'' [objectName]
      in if mapRace sched m
         then \<lparr>err = None, trace = waited, files = fs, manager = m', fatal = True\<rparr>
         else
           (case firstError waited of
              Some e \<Rightarrow> \<lparr>err = decorated (Some e), trace = waited, files = fs, manager = m',
                         fatal = False\<rparr>
            | None \<Rightarrow>
                (let gdmErr = (if isComputer then gdm m (rulesOf rules' ''gdm'') else None);
                     gdmRun = (if isComputer
                               then [GdmCall (rulesOf rules' ''gdm''), GdmReturn gdmErr] else [])
                 in case gdmErr of
                      Some e \<Rightarrow> \<lparr>err = decorated (Some e), trace = waited @ gdmRun,
                                 files = fs, manager = m', fatal = False\<rparr>
                    | None \<Rightarrow>
                        (let p = Join sys (policiesCacheDir m) objectName
                         in case Save sys fs pols p of
                              (serr, fs') \<Rightarrow>
                                \<lparr>err = decorated serr, trace = waited @ gdmRun @ [SaveCall p],
                                 files = fs', manager = m', fatal = False\<rparr>))))"

text \<open>Whether the three backends accept what \<^verbatim>\<open>ApplyPolicies\<close> hands them.\<close>

definition backendsSucceed :: "Manager \<Rightarrow> string \<Rightarrow> bool \<Rightarrow> Policies \<Rightarrow> bool" where
  "backendsSucceed m objectName isComputer pols \<longleftrightarrow>
     dconf m objectName isComputer (rulesOf (GetUniqueRules pols) ''dconf'') = None \<and>
     privilege m objectName isComputer (rulesOf (dispatchedRules m pols) ''privilege'') = None \<and>
     (if isComputer then gdm m (rulesOf (dispatchedRules m pols) ''gdm'') = None else True)"


section \<open>Example policy sets\<close>

text \<open>
  The entries of the examples: key \<open>a\<close> with value \<open>x\<close> in the closest GPO \<open>G1\<close>, as
  an append and as an override entry, value \<open>y\<close> in the farther GPO \<open>G2\<close>, a disabled
  append entry, and the entry that merges the two append entries.
\<close>

definition exAppendX :: Entry where
  "exAppendX = \<lparr>Key = ''a'', Value = ''x'', Disabled = False, Meta = ''G1'', Strategy = StrategyAppend\<rparr>"

definition exAppendY :: Entry where
  "exAppendY = \<lparr>Key = ''a'', Value = ''y'', Disabled = False, Meta = ''G2'', Strategy = StrategyAppend\<rparr>"

definition exOverrideX :: Entry where
  "exOverrideX = \<lparr>Key = ''a'', Value = ''x'', Disabled = False, Meta = ''G1'', Strategy = StrategyOverride\<rparr>"

definition exDisabledZ :: Entry where
  "exDisabledZ = \<lparr>Key = ''a'', Value = ''z'', Disabled = True, Meta = ''G0'', Strategy = StrategyAppend\<rparr>"

definition exMerged :: Entry where
  "exMerged = \<lparr>Key = ''a'', Value = ''y'' @ [CHR 0x0A] @ ''x'', Disabled = False, Meta = ''G1'',
                Strategy = StrategyAppend\<rparr>"

definition gpoOf :: "string \<Rightarrow> Entry \<Rightarrow> GPO" where
  "gpoOf n e = \<lparr>Name = n, Rules = [(''dconf'', [e])]\<rparr>"

definition exAppendPols :: Policies where
  "exAppendPols = \<lparr>GPOs = [gpoOf ''G1'' exAppendX, gpoOf ''G2'' exAppendY], Data = None\<rparr>"

text \<open>A disabled override entry in the closest GPO, before an enabled append entry.\<close>

definition exOverrideDisabled :: Entry where
  "exOverrideDisabled =
     \<lparr>Key = ''a'', Value = ''x'', Disabled = True, Meta = ''G1'', Strategy = StrategyOverride\<rparr>"

definition exDisabledPols :: Policies where
  "exDisabledPols = \<lparr>GPOs = [gpoOf ''G1'' exOverrideDisabled, gpoOf ''G2'' exAppendY], Data = None\<rparr>"

text \<open>
  A manager whose backends accept everything, on a machine with the subscription, and
  one whose dconf backend fails; a file system that is a map from paths to contents,
  with a serialisation that is right for the example policy set.
\<close>

definition exManager :: Manager where
  "exManager =
     \<lparr>policiesCacheDir = ''/var/cache/adsys/policies'',
      dconf = (\<lambda>objectName isComputer rules. None),
      privilege = (\<lambda>objectName isComputer rules. None),
      gdm = (\<lambda>rules. None),
      subcriptionDbus = Inr (VString ''enabled''),
      subscriptionEnabled = False\<rparr>"

definition exDconfFails :: Manager where
  "exDconfFails = exManager\<lparr>dconf := (\<lambda>objectName isComputer rules. Some (Failure ''dconf''))\<rparr>"

definition exNoSubscription :: Manager where
  "exNoSubscription = exManager\<lparr>subcriptionDbus := Inl (Failure ''dbus'')\<rparr>"

definition exSys :: "(string \<rightharpoonup> string) Sys" where
  "exSys =
     \<lparr>Marshal = (\<lambda>gs. Inr (concat (map Name gs))),
      Unmarshal = (\<lambda>d. if d = ''G1G2'' then Inr (GPOs exAppendPols) else Inl (Failure ''yaml'')),
      WriteFile = (\<lambda>fs p d. (None, fs(p \<mapsto> d))),
      ReadFile = (\<lambda>fs p. case fs p of None \<Rightarrow> Inl (Failure ''no such file'') | Some d \<Rightarrow> Inr d),
      Join = (\<lambda>dir name. dir @ ''/'' @ name)\<rparr>"

text \<open>A policy set with a privilege rule.\<close>

definition exPrivilege :: Entry where
  "exPrivilege = \<lparr>Key = ''allow-local-admins'', Value = ''no'', Disabled = False, Meta = ''G1'',
                   Strategy = StrategyOverride\<rparr>"

definition exPrivilegePols :: Policies where
  "exPrivilegePols = \<lparr>GPOs = [\<lparr>Name = ''G1'', Rules = [(''privilege'', [exPrivilege])]\<rparr>], Data = None\<rparr>"

text \<open>
  An override entry between two append entries of the same key: \<open>G1\<close> appends \<open>x\<close>,
  the farther \<open>G2\<close> overrides with \<open>w\<close>, the farthest \<open>G3\<close> appends \<open>y\<close>.
\<close>

definition exOverrideW :: Entry where
  "exOverrideW = \<lparr>Key = ''a'', Value = ''w'', Disabled = False, Meta = ''G2'', Strategy = StrategyOverride\<rparr>"

definition exAppendY3 :: Entry where
  "exAppendY3 = \<lparr>Key = ''a'', Value = ''y'', Disabled = False, Meta = ''G3'', Strategy = StrategyAppend\<rparr>"

definition exMidOverridePols :: Policies where
  "exMidOverridePols =
     \<lparr>GPOs = [gpoOf ''G1'' exAppendX, gpoOf ''G2'' exOverrideW, gpoOf ''G3'' exAppendY3], Data = None\<rparr>"

text \<open>
  Two entries of different types and keys whose \<^verbatim>\<open>t+e.Key\<close> is the same string
  \<open>abc\<close>: key \<open>bc\<close> of type \<open>a\<close> in \<open>G1\<close>, and the disabled override entry of key
  \<open>c\<close> of type \<open>ab\<close> in \<open>G2\<close>, the only entry of its type and key.
\<close>

definition exKeyBC :: Entry where
  "exKeyBC = \<lparr>Key = ''bc'', Value = ''v'', Disabled = False, Meta = ''G1'', Strategy = StrategyOverride\<rparr>"

definition exKeyC :: Entry where
  "exKeyC = \<lparr>Key = ''c'', Value = ''x'', Disabled = True, Meta = ''G2'', Strategy = StrategyOverride\<rparr>"

definition exCollisionPols :: Policies where
  "exCollisionPols =
     \<lparr>GPOs = [\<lparr>Name = ''G1'', Rules = [(''a'', [exKeyBC])]\<rparr>,
              \<lparr>Name = ''G2'', Rules = [(''ab'', [exKeyC])]\<rparr>], Data = None\<rparr>"

text \<open>
  Schedules: the choices \<open>bs\<close> with no collision of the read and the write of the
  map, and a schedule in which they collide.
\<close>

definition exOrder :: "bool list \<Rightarrow> Schedule" where
  "exOrder bs = \<lparr>choices = bs, collision = False\<rparr>"

definition exCollision :: Schedule where
  "exCollision = \<lparr>choices = [], collision = True\<rparr>"

section \<open>Properties of the merge engine\<close>

lemma rulesOf_emit:
  "rulesOf (emitRules st) t =
     (if dedup st t = None then [] else map (lookupEntry (dedup st) t) (sort (keys st t)))"
  by (simp add: rulesOf_def emitRules_def split: option.splits)

lemma lookupEntry_entryAt:
  "lookupEntry dd t k = (case entryAt dd t k of None \<Rightarrow> zeroEntry | Some e \<Rightarrow> e)"
  by (simp add: lookupEntry_def entryAt_def split: option.splits)

lemma entryAt_storeEntry:
  "entryAt (storeEntry dd t k e) t' k' = (if t' = t \<and> k' = k then Some e else entryAt dd t' k')"
  by (simp add: entryAt_def storeEntry_def split: option.splits)

lemma entryAt_initDomain [simp]: "entryAt (dedup (initDomain t st)) t' k = entryAt (dedup st) t' k"
  by (simp add: entryAt_def initDomain_def)

lemma keys_initDomain [simp]: "keys (initDomain t st) = keys st"
  by (simp add: initDomain_def)

lemma seen_initDomain [simp]: "seen (initDomain t st) = seen st"
  by (simp add: initDomain_def)

lemma entryAt_Some_dedup: "entryAt dd t k = Some e \<Longrightarrow> dd t \<noteq> None"
  by (cases "dd t") (simp_all add: entryAt_def)

lemma Strategy_zeroEntry [simp]: "Strategy zeroEntry \<noteq> StrategyAppend"
  by (simp add: zeroEntry_def StrategyAppend_def)

lemma appendTo_simps [simp]:
  "Key (appendTo e old) = Key e"
  "Strategy (appendTo e old) = Strategy e"
  "Disabled (appendTo e old) = Disabled e"
  "Value (appendTo e old) = Value e @ [CHR 0x0A] @ Value old"
  "Meta (appendTo e old) = Meta old"
  by (simp_all add: appendTo_def)

text \<open>
  The effect of one iteration on the three maps, case by case.
\<close>

lemma processEntry_skipped: "skipped e \<Longrightarrow> processEntry t st e = st"
  by (simp add: processEntry_def skipped_def)

lemma processEntry_cases:
  obtains
    (skip) "skipped e" "processEntry t st e = st"
  | (blocked) "\<not> skipped e" "t @ Key e \<in> seen st"
      "Strategy e = StrategyAppend \<longrightarrow> Strategy (lookupEntry (dedup st) t (Key e)) \<noteq> StrategyAppend"
      "processEntry t st e = st"
  | (extend) "Strategy e = StrategyAppend" "\<not> Disabled e" "t @ Key e \<in> seen st"
      "Strategy (lookupEntry (dedup st) t (Key e)) = StrategyAppend"
      "processEntry t st e =
         st\<lparr>dedup := storeEntry (dedup st) t (Key e) (appendTo e (lookupEntry (dedup st) t (Key e)))\<rparr>"
  | (first) "\<not> skipped e" "t @ Key e \<notin> seen st"
      "processEntry t st e = markSeen t (Key e) (st\<lparr>dedup := storeEntry (dedup st) t (Key e) e\<rparr>)"
  unfolding processEntry_def skipped_def by (cases "Strategy e = StrategyAppend"; cases "Disabled e"; cases "t @ Key e \<in> seen st"; cases "Strategy (lookupEntry (dedup st) t (Key e)) = StrategyAppend"; simp)

text \<open>The three nested loops as one induction principle over the visited entries.\<close>

lemma entries_rule:
  assumes step: "\<And>p s e. Q p s \<Longrightarrow> Q (p @ [(t, e)]) (processEntry t s e)"
  shows "Q p s \<Longrightarrow> Q (p @ map (Pair t) es) (foldl (processEntry t) s es)"
proof (induction es arbitrary: p s)
  case Nil
  then show ?case by simp
next
  case (Cons e es)
  have "Q ((p @ [(t, e)]) @ map (Pair t) es) (foldl (processEntry t) (processEntry t s e) es)"
    by (rule Cons.IH) (rule step, rule Cons.prems)
  then show ?case by simp
qed

lemma domains_rule:
  assumes dom: "\<And>p s t. Q p s \<Longrightarrow> Q p (initDomain t s)"
    and step: "\<And>p s t e. Q p s \<Longrightarrow> Q (p @ [(t, e)]) (processEntry t s e)"
  shows "Q p s \<Longrightarrow> Q (p @ concat (map (\<lambda>te. map (Pair (fst te)) (snd te)) rs)) (foldl processDomain s rs)"
proof (induction rs arbitrary: p s)
  case Nil
  then show ?case by simp
next
  case (Cons r rs)
  have "Q (p @ map (Pair (fst r)) (snd r)) (processDomain s r)"
    unfolding processDomain_def
    by (rule entries_rule) (rule step, assumption, rule dom, rule Cons.prems)
  from Cons.IH [OF this] show ?case by simp
qed

lemma dedupLoop_rule:
  assumes dom: "\<And>p s t. Q p s \<Longrightarrow> Q p (initDomain t s)"
    and step: "\<And>p s t e. Q p s \<Longrightarrow> Q (p @ [(t, e)]) (processEntry t s e)"
  shows "Q p s \<Longrightarrow> Q (p @ visits gs) (dedupLoop s gs)"
proof (induction gs arbitrary: p s)
  case Nil
  then show ?case by (simp add: visits_def dedupLoop_def)
next
  case (Cons g gs)
  have "Q (p @ concat (map (\<lambda>te. map (Pair (fst te)) (snd te)) (Rules g))) (processGPO s g)"
    unfolding processGPO_def
    by (rule domains_rule) (rule dom, assumption, rule step, assumption, rule Cons.prems)
  from Cons.IH [OF this] show ?case by (simp add: visits_def dedupLoop_def)
qed

lemma dedupLoop_append: "dedupLoop s (gs @ hs) = dedupLoop (dedupLoop s gs) hs"
  by (simp add: dedupLoop_def)

lemma dedupLoop_invariant:
  assumes "P s" "\<And>s t. P s \<Longrightarrow> P (initDomain t s)" "\<And>s t e. P s \<Longrightarrow> P (processEntry t s e)"
  shows "P (dedupLoop s gs)"
  using dedupLoop_rule [where Q = "\<lambda>p. P" and p = "[]" and s = s and gs = gs] assms by blast

subsection \<open>The invariant\<close>

lemma mergeInv_initState: "mergeInv initState"
  by (simp add: mergeInv_def initState_def entryAt_def)

lemma mergeInv_initDomain: "mergeInv s \<Longrightarrow> mergeInv (initDomain t s)"
  by (simp add: mergeInv_def)

lemma mergeInv_processEntry:
  assumes inv: "mergeInv s"
  shows "mergeInv (processEntry t s e)"
proof (cases rule: processEntry_cases [where e = e and t = t and st = s])
  case skip
  with inv show ?thesis by simp
next
  case blocked
  with inv show ?thesis by simp
next
  case extend
  from extend(4) obtain old where old: "entryAt (dedup s) t (Key e) = Some old"
    by (auto simp add: lookupEntry_entryAt split: option.splits)
  with inv have "Key e \<in> set (keys s t)" unfolding mergeInv_def by blast
  with inv show ?thesis unfolding extend(5) mergeInv_def
    by (auto simp add: entryAt_storeEntry)
next
  case first
  from inv first(2) have "Key e \<notin> set (keys s t)" unfolding mergeInv_def by blast
  with inv show ?thesis unfolding first(3) mergeInv_def markSeen_def
    by (auto simp add: entryAt_storeEntry)
qed

lemma mergeInv_dedupLoop: "mergeInv s \<Longrightarrow> mergeInv (dedupLoop s gs)"
  by (rule dedupLoop_invariant) (simp_all add: mergeInv_initDomain mergeInv_processEntry)

lemma Key_lookup: "mergeInv s \<Longrightarrow> k \<in> set (keys s t) \<Longrightarrow> Key (lookupEntry (dedup s) t k) = k"
proof -
  assume "mergeInv s" and "k \<in> set (keys s t)"
  then obtain e where "entryAt (dedup s) t k = Some e" and "Key e = k"
    unfolding mergeInv_def by blast
  then show ?thesis by (simp add: lookupEntry_entryAt)
qed

lemma keys_emit:
  assumes inv: "mergeInv s"
  shows "map Key (rulesOf (emitRules s) t) = (if dedup s t = None then [] else sort (keys s t))"
proof -
  have "map Key (map (lookupEntry (dedup s) t) (sort (keys s t))) = map (\<lambda>k. k) (sort (keys s t))"
    unfolding map_map by (rule map_cong) (simp_all add: Key_lookup [OF inv])
  then show ?thesis by (simp add: rulesOf_emit)
qed

text \<open>The entries of a type in the result are exactly the entries stored for it.\<close>

lemma set_emit:
  assumes inv: "mergeInv s"
  shows "e \<in> set (rulesOf (emitRules s) t) \<longleftrightarrow> entryAt (dedup s) t (Key e) = Some e"
proof
  assume "e \<in> set (rulesOf (emitRules s) t)"
  then obtain k where k: "k \<in> set (keys s t)" and e: "e = lookupEntry (dedup s) t k"
    by (auto simp add: rulesOf_emit split: if_splits)
  from inv k obtain e' where "entryAt (dedup s) t k = Some e'" "Key e' = k"
    unfolding mergeInv_def by blast
  with e show "entryAt (dedup s) t (Key e) = Some e" by (simp add: lookupEntry_entryAt)
next
  assume a: "entryAt (dedup s) t (Key e) = Some e"
  with inv have "Key e \<in> set (keys s t)" unfolding mergeInv_def by blast
  moreover from a have "dedup s t \<noteq> None" by (rule entryAt_Some_dedup)
  moreover from a have "lookupEntry (dedup s) t (Key e) = e" by (simp add: lookupEntry_entryAt)
  ultimately show "e \<in> set (rulesOf (emitRules s) t)"
    by (force simp add: rulesOf_emit)
qed

text \<open>
  Claim C3. For every policy set and every type, the list that \<^verbatim>\<open>GetUniqueRules\<close>
  returns is sorted in ascending bytewise order of key (the order of
  \<^verbatim>\<open>sort.Strings\<close>) and holds at most one entry per key.
\<close>

theorem GetUniqueRules_sorted_unique:
  "sorted (map Key (rulesOf (GetUniqueRules pols) t)) \<and>
   distinct (map Key (rulesOf (GetUniqueRules pols) t))"
proof -
  have inv: "mergeInv (dedupLoop initState (GPOs pols))"
    by (rule mergeInv_dedupLoop) (rule mergeInv_initState)
  then have "distinct (keys (dedupLoop initState (GPOs pols)) t)"
    unfolding mergeInv_def by blast
  then show ?thesis
    by (simp add: GetUniqueRules_def keys_emit [OF inv])
qed

lemmas merge_eval =
  GetUniqueRules_def dedupLoop_def processGPO_def processDomain_def initDomain_def
  processEntry_def initState_def rulesOf_def emitRules_def lookupEntry_def storeEntry_def
  markSeen_def appendTo_def StrategyAppend_def StrategyOverride_def visits_def appendChain_def

lemmas example_defs =
  exAppendX_def exAppendY_def exOverrideX_def exDisabledZ_def exMerged_def gpoOf_def exAppendPols_def

lemmas mid_override_defs =
  exOverrideW_def exAppendY3_def exMidOverridePols_def

lemmas collision_defs =
  exKeyBC_def exKeyC_def exCollisionPols_def

subsection \<open>An override entry stays\<close>

lemma override_kept:
  assumes inv: "mergeInv s"
    and d: "entryAt (dedup s) t k = Some d"
    and ov: "Strategy d \<noteq> StrategyAppend"
  shows "entryAt (dedup (processEntry t' s e)) t k = Some d"
proof (cases rule: processEntry_cases [where e = e and t = t' and st = s])
  case skip
  with d show ?thesis by simp
next
  case blocked
  with d show ?thesis by simp
next
  case extend
  have "\<not> (t = t' \<and> k = Key e)"
  proof
    assume "t = t' \<and> k = Key e"
    with d have "lookupEntry (dedup s) t' (Key e) = d" by (simp add: lookupEntry_entryAt)
    with extend(4) ov show False by simp
  qed
  with d show ?thesis unfolding extend(5) by (auto simp add: entryAt_storeEntry)
next
  case first
  from inv d have "t @ k \<in> seen s" unfolding mergeInv_def by blast
  with first(2) have "\<not> (t = t' \<and> k = Key e)" by auto
  with d show ?thesis unfolding first(3) markSeen_def by (auto simp add: entryAt_storeEntry)
qed

lemma override_kept_loop:
  assumes "mergeInv s" "entryAt (dedup s) t k = Some d" "Strategy d \<noteq> StrategyAppend"
  shows "entryAt (dedup (dedupLoop s gs)) t k = Some d"
proof -
  have "mergeInv (dedupLoop s gs) \<and> entryAt (dedup (dedupLoop s gs)) t k = Some d"
    by (rule dedupLoop_invariant)
      (simp_all add: assms mergeInv_initDomain mergeInv_processEntry override_kept)
  then show ?thesis ..
qed

text \<open>
  Claim C2. Once the closer GPOs have given a (type, key) pair an entry whose strategy
  is not append, the merge of these GPOs followed by any farther ones has the very
  same entry for that key, and no other: farther override entries are ignored and
  farther append entries are dropped, not concatenated.
\<close>

theorem override_blocks_farther:
  assumes "d \<in> set (rulesOf (GetUniqueRules \<lparr>GPOs = closer, Data = x\<rparr>) t)"
    and "Strategy d \<noteq> StrategyAppend"
  shows "d \<in> set (rulesOf (GetUniqueRules \<lparr>GPOs = closer @ farther, Data = y\<rparr>) t) \<and>
    (\<forall>e \<in> set (rulesOf (GetUniqueRules \<lparr>GPOs = closer @ farther, Data = y\<rparr>) t).
       Key e = Key d \<longrightarrow> e = d)"
proof -
  let ?s1 = "dedupLoop initState closer"
  let ?s2 = "dedupLoop initState (closer @ farther)"
  have inv1: "mergeInv ?s1" by (rule mergeInv_dedupLoop) (rule mergeInv_initState)
  have inv2: "mergeInv ?s2" by (rule mergeInv_dedupLoop) (rule mergeInv_initState)
  from assms(1) have "entryAt (dedup ?s1) t (Key d) = Some d"
    by (simp add: GetUniqueRules_def set_emit [OF inv1])
  with inv1 have at: "entryAt (dedup ?s2) t (Key d) = Some d"
    unfolding dedupLoop_append using assms(2) by (rule override_kept_loop)
  show ?thesis
  proof (intro conjI ballI impI)
    from at show "d \<in> set (rulesOf (GetUniqueRules \<lparr>GPOs = closer @ farther, Data = y\<rparr>) t)"
      by (simp add: GetUniqueRules_def set_emit [OF inv2])
  next
    fix e
    assume "e \<in> set (rulesOf (GetUniqueRules \<lparr>GPOs = closer @ farther, Data = y\<rparr>) t)"
      and k: "Key e = Key d"
    then have "entryAt (dedup ?s2) t (Key e) = Some e"
      by (simp add: GetUniqueRules_def set_emit [OF inv2])
    then have "Some e = entryAt (dedup ?s2) t (Key d)" by (simp only: k)
    also note at
    finally show "e = d" by (simp only: option.inject)
  qed
qed

theorem override_blocks_farther_witness:
  "exOverrideX \<in> set (rulesOf (GetUniqueRules \<lparr>GPOs = [gpoOf ''G1'' exOverrideX], Data = None\<rparr>) ''dconf'') \<and>
   Strategy exOverrideX \<noteq> StrategyAppend \<and>
   exOverrideX \<in> set (rulesOf (GetUniqueRules
      \<lparr>GPOs = [gpoOf ''G1'' exOverrideX] @ [gpoOf ''G2'' exAppendY], Data = None\<rparr>) ''dconf'') \<and>
   map Value (rulesOf (GetUniqueRules
      \<lparr>GPOs = [gpoOf ''G1'' exOverrideX] @ [gpoOf ''G2'' exAppendY], Data = None\<rparr>) ''dconf'') = [''x'']"
proof -
  have a: "exOverrideX \<in> set (rulesOf (GetUniqueRules \<lparr>GPOs = [gpoOf ''G1'' exOverrideX], Data = None\<rparr>) ''dconf'')"
    by (simp add: merge_eval example_defs)
  have b: "Strategy exOverrideX \<noteq> StrategyAppend"
    by (simp add: exOverrideX_def StrategyAppend_def StrategyOverride_def)
  have c: "map Value (rulesOf (GetUniqueRules
      \<lparr>GPOs = [gpoOf ''G1'' exOverrideX] @ [gpoOf ''G2'' exAppendY], Data = None\<rparr>) ''dconf'') = [''x'']"
    by (simp add: merge_eval example_defs)
  from override_blocks_farther [OF a b, of "[gpoOf ''G2'' exAppendY]" None] a b c
  show ?thesis by blast
qed

subsection \<open>Disabled append entries\<close>

lemma foldl_processEntry_filter:
  "foldl (processEntry t) s (filter (\<lambda>e. \<not> skipped e) es) = foldl (processEntry t) s es"
  by (induction es arbitrary: s) (simp_all add: processEntry_skipped)

lemma processDomain_filter:
  "processDomain s (fst te, filter (\<lambda>e. \<not> skipped e) (snd te)) = processDomain s te"
  by (simp add: processDomain_def foldl_processEntry_filter)

lemma foldl_processDomain_filter:
  "foldl processDomain s (map (\<lambda>te. (fst te, filter (\<lambda>e. \<not> skipped e) (snd te))) rs) =
   foldl processDomain s rs"
  by (induction rs arbitrary: s) (simp_all add: processDomain_filter)

lemma dedupLoop_dropSkipped: "dedupLoop s (GPOs (dropSkipped pols)) = dedupLoop s (GPOs pols)"
proof -
  have "foldl processGPO s
          (map (\<lambda>g. g\<lparr>Rules := map (\<lambda>te. (fst te, filter (\<lambda>e. \<not> skipped e) (snd te))) (Rules g)\<rparr>) gs) =
        foldl processGPO s gs" for gs
    by (induction gs arbitrary: s) (simp_all add: processGPO_def foldl_processDomain_filter)
  then show ?thesis by (simp add: dropSkipped_def dedupLoop_def)
qed

lemma noSkipped_processEntry:
  assumes "noSkipped s"
  shows "noSkipped (processEntry t s e)"
proof (cases rule: processEntry_cases [where e = e and t = t and st = s])
  case skip
  with assms show ?thesis by simp
next
  case blocked
  with assms show ?thesis by simp
next
  case extend
  then have "\<not> skipped (appendTo e (lookupEntry (dedup s) t (Key e)))"
    by (simp add: skipped_def)
  with assms show ?thesis unfolding extend(5) noSkipped_def
    by (auto simp add: entryAt_storeEntry)
next
  case first
  with assms show ?thesis unfolding first(3) noSkipped_def markSeen_def
    by (auto simp add: entryAt_storeEntry)
qed

lemma noSkipped_initState: "noSkipped initState"
  by (simp add: noSkipped_def initState_def entryAt_def)

lemma noSkipped_initDomain: "noSkipped s \<Longrightarrow> noSkipped (initDomain t s)"
  by (simp add: noSkipped_def)

lemma noSkipped_dedupLoop: "noSkipped (dedupLoop initState gs)"
  by (rule dedupLoop_invariant)
    (simp_all add: noSkipped_processEntry noSkipped_initState noSkipped_initDomain)

text \<open>
  Claim C4. An entry with the append strategy and the disabled flag never is in the
  result, and it adds nothing to the loop: the iteration leaves \<open>dedup\<close>, \<open>keys\<close> and
  \<open>seen\<close> as they are, so the result is the one of the policy set without its disabled
  append entries.
\<close>

theorem disabled_append_ignored:
  "(\<forall>e \<in> set (rulesOf (GetUniqueRules pols) t). \<not> (Strategy e = StrategyAppend \<and> Disabled e)) \<and>
   (\<forall>e s. Strategy e = StrategyAppend \<and> Disabled e \<longrightarrow> processEntry t s e = s) \<and>
   GetUniqueRules (dropSkipped pols) = GetUniqueRules pols"
proof -
  let ?s = "dedupLoop initState (GPOs pols)"
  have inv: "mergeInv ?s" by (rule mergeInv_dedupLoop) (rule mergeInv_initState)
  have "\<not> skipped e" if "e \<in> set (rulesOf (GetUniqueRules pols) t)" for e
  proof -
    from that have "entryAt (dedup ?s) t (Key e) = Some e"
      by (simp add: GetUniqueRules_def set_emit [OF inv])
    with noSkipped_dedupLoop [of "GPOs pols"] show ?thesis unfolding noSkipped_def by blast
  qed
  then have "\<forall>e \<in> set (rulesOf (GetUniqueRules pols) t). \<not> (Strategy e = StrategyAppend \<and> Disabled e)"
    unfolding skipped_def by blast
  moreover have "\<forall>e s. Strategy e = StrategyAppend \<and> Disabled e \<longrightarrow> processEntry t s e = s"
    by (simp add: processEntry_def)
  moreover have "GetUniqueRules (dropSkipped pols) = GetUniqueRules pols"
    by (simp add: GetUniqueRules_def dedupLoop_dropSkipped)
  ultimately show ?thesis by blast
qed

theorem disabled_append_ignored_witness:
  "rulesOf (GetUniqueRules \<lparr>GPOs = [gpoOf ''G0'' exDisabledZ, gpoOf ''G1'' exAppendX], Data = None\<rparr>) ''dconf'' = [exAppendX] \<and>
   processEntry ''dconf'' initState exDisabledZ = initState \<and>
   GetUniqueRules (dropSkipped \<lparr>GPOs = [gpoOf ''G0'' exDisabledZ, gpoOf ''G1'' exAppendX], Data = None\<rparr>) =
   GetUniqueRules \<lparr>GPOs = [gpoOf ''G0'' exDisabledZ, gpoOf ''G1'' exAppendX], Data = None\<rparr>"
proof -
  have a: "rulesOf (GetUniqueRules \<lparr>GPOs = [gpoOf ''G0'' exDisabledZ, gpoOf ''G1'' exAppendX], Data = None\<rparr>) ''dconf'' = [exAppendX]"
    by (simp add: merge_eval example_defs)
  have b: "Strategy exDisabledZ = StrategyAppend \<and> Disabled exDisabledZ"
    by (simp add: exDisabledZ_def)
  from disabled_append_ignored
    [of "\<lparr>GPOs = [gpoOf ''G0'' exDisabledZ, gpoOf ''G1'' exAppendX], Data = None\<rparr>" "''dconf''"] a b
  show ?thesis by blast
qed

lemma appendChain_snoc:
  "appendChain (p @ [(t', e)]) t k =
     appendChain p t k @
       (if t' = t \<and> Key e = k \<and> Strategy e = StrategyAppend \<and> \<not> Disabled e then [e] else [])"
  by (simp add: appendChain_def)

lemma joinLines_Cons: "vs \<noteq> [] \<Longrightarrow> joinLines (v # vs) = v @ [CHR 0x0A] @ joinLines vs"
  by (cases vs) simp_all

lemma lookupEntry_Append:
  assumes "Strategy (lookupEntry dd t k) = StrategyAppend"
  shows "entryAt dd t k = Some (lookupEntry dd t k)"
  using assms by (cases "entryAt dd t k") (simp_all add: lookupEntry_entryAt)

lemma entryAt_storeEntry_other:
  "\<not> (t' = t \<and> k' = k) \<Longrightarrow> entryAt (storeEntry dd t k e) t' k' = entryAt dd t' k'"
  by (auto simp add: entryAt_storeEntry)

lemma chainOk_step:
  assumes inv: "mergeInv s" and ok: "chainOk p s t k"
  shows "chainOk (p @ [(t', e)]) (processEntry t' s e) t k"
proof (cases "t' = t \<and> Key e = k")
  case False
  then have chain: "appendChain (p @ [(t', e)]) t k = appendChain p t k"
    by (auto simp add: appendChain_snoc)
  from False have other: "\<not> (t = t' \<and> k = Key e)" by auto
  show ?thesis
  proof (cases rule: processEntry_cases [where e = e and t = t' and st = s])
    case skip
    with ok chain show ?thesis by (simp add: chainOk_def)
  next
    case blocked
    with ok chain show ?thesis by (simp add: chainOk_def)
  next
    case extend
    with ok chain show ?thesis
      by (simp add: chainOk_def entryAt_storeEntry_other [OF other])
  next
    case first
    with ok chain show ?thesis
      by (simp add: chainOk_def entryAt_storeEntry_other [OF other] markSeen_def)
  qed
next
  case True
  then have t: "t' = t" and k: "Key e = k" by simp_all
  show ?thesis
  proof (cases rule: processEntry_cases [where e = e and t = t' and st = s])
    case skip
    then have "appendChain (p @ [(t', e)]) t k = appendChain p t k"
      by (simp add: appendChain_snoc skipped_def)
    with ok skip show ?thesis by (simp add: chainOk_def)
  next
    case blocked
    show ?thesis unfolding chainOk_def blocked(4)
    proof (intro conjI allI impI)
      assume "t @ k \<notin> seen s"
      with blocked(2) t k show "appendChain (p @ [(t', e)]) t k = []" by simp
    next
      fix d
      assume d: "entryAt (dedup s) t k = Some d" and app: "Strategy d = StrategyAppend"
      then have "lookupEntry (dedup s) t' (Key e) = d" by (simp add: lookupEntry_entryAt t k)
      with blocked(3) app have "Strategy e \<noteq> StrategyAppend" by auto
      then have same: "appendChain (p @ [(t', e)]) t k = appendChain p t k"
        by (simp add: appendChain_snoc)
      from ok d app show "appendChain (p @ [(t', e)]) t k \<noteq> []"
        and "Value d = joinLines (rev (map Value (appendChain (p @ [(t', e)]) t k)))"
        and "Meta d = Meta (hd (appendChain (p @ [(t', e)]) t k))"
        unfolding same chainOk_def by blast+
    qed
  next
    case extend
    let ?old = "lookupEntry (dedup s) t k"
    from extend(4) have old: "entryAt (dedup s) t k = Some ?old"
      unfolding t k by (rule lookupEntry_Append)
    from extend(4) have app: "Strategy ?old = StrategyAppend" by (simp add: t k)
    from ok old app have ne: "appendChain p t k \<noteq> []"
      and v: "Value ?old = joinLines (rev (map Value (appendChain p t k)))"
      and m: "Meta ?old = Meta (hd (appendChain p t k))"
      unfolding chainOk_def by blast+
    from extend(1,2) have chain: "appendChain (p @ [(t', e)]) t k = appendChain p t k @ [e]"
      by (simp add: appendChain_snoc t k)
    from ne have "rev (map Value (appendChain p t k)) \<noteq> []" by simp
    then have j: "joinLines (Value e # rev (map Value (appendChain p t k))) =
        Value e @ [CHR 0x0A] @ joinLines (rev (map Value (appendChain p t k)))"
      by (rule joinLines_Cons)
    show ?thesis unfolding chainOk_def extend(5) chain
      using extend(3) ne v m j by (simp add: entryAt_storeEntry t k)
  next
    case first
    from ok first(2) have empty: "appendChain p t k = []"
      unfolding chainOk_def by (simp add: t k)
    show ?thesis unfolding chainOk_def first(3)
      using empty first(1)
      by (auto simp add: entryAt_storeEntry markSeen_def appendChain_snoc skipped_def t k)
  qed
qed

lemma chainOk_initDomain: "chainOk p s t k \<Longrightarrow> chainOk p (initDomain t' s) t k"
  by (simp add: chainOk_def)

lemma chainOk_loop: "chainOk (visits gs) (dedupLoop initState gs) t k"
proof -
  have "mergeInv (dedupLoop initState gs) \<and> chainOk ([] @ visits gs) (dedupLoop initState gs) t k"
    by (rule dedupLoop_rule [where Q = "\<lambda>p s. mergeInv s \<and> chainOk p s t k"])
      (simp_all add: mergeInv_initDomain mergeInv_processEntry chainOk_initDomain chainOk_step
        mergeInv_initState, simp add: chainOk_def appendChain_def initState_def entryAt_def)
  then show ?thesis by simp
qed

lemma append_chain:
  assumes "e \<in> set (rulesOf (GetUniqueRules pols) t)" and "Strategy e = StrategyAppend"
  shows "appendChain (visits (GPOs pols)) t (Key e) \<noteq> [] \<and>
         Value e = joinLines (rev (map Value (appendChain (visits (GPOs pols)) t (Key e)))) \<and>
         Meta e = Meta (hd (appendChain (visits (GPOs pols)) t (Key e)))"
proof -
  let ?s = "dedupLoop initState (GPOs pols)"
  have inv: "mergeInv ?s" by (rule mergeInv_dedupLoop) (rule mergeInv_initState)
  from assms(1) have "entryAt (dedup ?s) t (Key e) = Some e"
    by (simp add: GetUniqueRules_def set_emit [OF inv])
  with chainOk_loop [of "GPOs pols" t "Key e"] assms(2) show ?thesis
    unfolding chainOk_def by blast
qed

subsection \<open>The value and the metadata of an append chain\<close>

text \<open>
  Claim C1, as the code has it. An entry of the result whose strategy is append has
  the values of all enabled append entries of its type and key, joined by newlines in
  the reverse order of the visit: each farther value is put before what the closer
  GPOs have accumulated (\<^verbatim>\<open>e.Value + "\n" + dedup[t][e.Key].Value\<close>), so the
  closest GPO's value comes last. For \<open>G1\<close> with value \<open>x\<close> and \<open>G2\<close> with value
  \<open>y\<close> the merged value is \<open>y\<close>, newline, \<open>x\<close>.
\<close>

theorem append_chain_value:
  assumes "e \<in> set (rulesOf (GetUniqueRules pols) t)" and "Strategy e = StrategyAppend"
  shows "Value e = joinLines (rev (map Value (appendChain (visits (GPOs pols)) t (Key e))))"
  using append_chain [OF assms] by blast

theorem append_chain_value_witness:
  "exMerged \<in> set (rulesOf (GetUniqueRules exAppendPols) ''dconf'') \<and>
   Strategy exMerged = StrategyAppend \<and>
   Value exMerged =
     joinLines (rev (map Value (appendChain (visits (GPOs exAppendPols)) ''dconf'' (Key exMerged)))) \<and>
   Value exMerged = ''y'' @ [CHR 0x0A] @ ''x''"
proof -
  have a: "exMerged \<in> set (rulesOf (GetUniqueRules exAppendPols) ''dconf'')"
    by (simp add: merge_eval example_defs)
  have b: "Strategy exMerged = StrategyAppend"
    by (simp add: exMerged_def)
  from append_chain_value [OF a b] a b show ?thesis
    by (simp add: exMerged_def)
qed

text \<open>
  The merged value of the two GPOs of claim C1 is \<open>y\<close>, newline, \<open>x\<close>, and not \<open>x\<close>,
  newline, \<open>y\<close>: the content of the closer GPO does not come first.
\<close>

theorem closer_first_counterexample:
  "map Value (rulesOf (GetUniqueRules exAppendPols) ''dconf'') = [''y'' @ [CHR 0x0A] @ ''x''] \<and>
   map Value (rulesOf (GetUniqueRules exAppendPols) ''dconf'') \<noteq> [''x'' @ [CHR 0x0A] @ ''y'']"
  by (simp add: merge_eval example_defs)

text \<open>
  Claim C5, as the code has it. An entry of the result whose strategy is append has
  the metadata of the first enabled append entry of its type and key in the order of
  the visit, that is of the closest entry that contributed to it, while its value
  holds the values of all enabled append entries of its type and key, down to the
  farthest GPO: an override entry visited after the first of them is ignored
  (\<^verbatim>\<open>seen[t+e.Key]\<close> exists) and does not end the chain.
\<close>

theorem append_chain_meta:
  assumes "e \<in> set (rulesOf (GetUniqueRules pols) t)" and "Strategy e = StrategyAppend"
  shows "appendChain (visits (GPOs pols)) t (Key e) \<noteq> [] \<and>
         Meta e = Meta (hd (appendChain (visits (GPOs pols)) t (Key e))) \<and>
         Value e = joinLines (rev (map Value (appendChain (visits (GPOs pols)) t (Key e))))"
  using append_chain [OF assms] by blast

theorem append_chain_meta_witness:
  "exMerged \<in> set (rulesOf (GetUniqueRules exMidOverridePols) ''dconf'') \<and>
   Strategy exMerged = StrategyAppend \<and>
   appendChain (visits (GPOs exMidOverridePols)) ''dconf'' (Key exMerged) = [exAppendX, exAppendY3] \<and>
   Meta exMerged = Meta exAppendX \<and>
   Value exMerged = joinLines [Value exAppendY3, Value exAppendX]"
proof -
  have a: "exMerged \<in> set (rulesOf (GetUniqueRules exMidOverridePols) ''dconf'')"
    by (simp add: merge_eval example_defs mid_override_defs)
  have b: "Strategy exMerged = StrategyAppend"
    by (simp add: exMerged_def)
  have c: "appendChain (visits (GPOs exMidOverridePols)) ''dconf'' (Key exMerged) =
      [exAppendX, exAppendY3]"
    by (simp add: merge_eval example_defs mid_override_defs)
  from append_chain_meta [OF a b] a b c show ?thesis
    by simp
qed

text \<open>
  The value of claim C5 does not stop at an override entry. With the append entry of
  value \<open>x\<close> in \<open>G1\<close>, the override entry of value \<open>w\<close> in \<open>G2\<close> and the append entry
  of value \<open>y\<close> in \<open>G3\<close>, the merged value is \<open>y\<close>, newline, \<open>x\<close>: it holds the value
  of \<open>G3\<close>, beyond the override entry of \<open>G2\<close>, and is not the value \<open>x\<close> of the
  entries before that override entry. The metadata is that of \<open>G1\<close>.
\<close>

theorem override_ends_chain_counterexample:
  "visits (GPOs exMidOverridePols) =
     [(''dconf'', exAppendX), (''dconf'', exOverrideW), (''dconf'', exAppendY3)] \<and>
   Strategy exOverrideW \<noteq> StrategyAppend \<and>
   map Value (rulesOf (GetUniqueRules exMidOverridePols) ''dconf'') = [''y'' @ [CHR 0x0A] @ ''x''] \<and>
   map Value (rulesOf (GetUniqueRules exMidOverridePols) ''dconf'') \<noteq> [''x''] \<and>
   map Meta (rulesOf (GetUniqueRules exMidOverridePols) ''dconf'') = [''G1'']"
  by (simp add: merge_eval example_defs mid_override_defs)

subsection \<open>The disabled flag of an override entry\<close>

lemma setOverrideDisabled_simps [simp]:
  "Key (setOverrideDisabled b e) = Key e"
  "Value (setOverrideDisabled b e) = Value e"
  "Meta (setOverrideDisabled b e) = Meta e"
  "Strategy (setOverrideDisabled b e) = Strategy e"
  by (simp_all add: setOverrideDisabled_def)

lemma setOverrideDisabled_append:
  "Strategy e = StrategyAppend \<Longrightarrow> setOverrideDisabled b e = e"
  by (simp add: setOverrideDisabled_def)

lemma mapState_simps [simp]:
  "keys (mapState f s) = keys s"
  "seen (mapState f s) = seen s"
  "dedup (mapState f s) t = None \<longleftrightarrow> dedup s t = None"
  by (simp_all add: mapState_def)

lemma entryAt_mapState:
  "entryAt (dedup (mapState f s)) t k = map_option f (entryAt (dedup s) t k)"
  by (cases "dedup s t") (simp_all add: entryAt_def mapState_def)

lemma lookup_mapState:
  "Strategy (lookupEntry (dedup (mapState (setOverrideDisabled b) s)) t k) =
     Strategy (lookupEntry (dedup s) t k)"
  "Value (lookupEntry (dedup (mapState (setOverrideDisabled b) s)) t k) =
     Value (lookupEntry (dedup s) t k)"
  "Meta (lookupEntry (dedup (mapState (setOverrideDisabled b) s)) t k) =
     Meta (lookupEntry (dedup s) t k)"
  by (cases "entryAt (dedup s) t k"; simp add: lookupEntry_entryAt entryAt_mapState)+

lemma appendTo_cong:
  "Value old' = Value old \<Longrightarrow> Meta old' = Meta old \<Longrightarrow> appendTo e old' = appendTo e old"
  by (simp add: appendTo_def)

lemma mapState_store:
  "mapState f (s\<lparr>dedup := storeEntry (dedup s) t k x\<rparr>) =
   (mapState f s)\<lparr>dedup := storeEntry (dedup (mapState f s)) t k (f x)\<rparr>"
  by (cases "dedup s t") (auto simp add: mapState_def storeEntry_def fun_eq_iff)

lemma mapState_markSeen: "mapState f (markSeen t k s) = markSeen t k (mapState f s)"
  by (simp add: mapState_def markSeen_def)

lemma mapState_initDomain: "mapState f (initDomain t s) = initDomain t (mapState f s)"
  by (auto simp add: mapState_def initDomain_def fun_eq_iff)

lemma mapState_initState: "mapState f initState = initState"
  by (simp add: mapState_def initState_def)

lemma skipped_setOverrideDisabled [simp]:
  "skipped (setOverrideDisabled b e) \<longleftrightarrow> skipped e"
  by (auto simp add: skipped_def setOverrideDisabled_def)

lemma processEntry_mapState:
  "processEntry t (mapState (setOverrideDisabled b) s) (setOverrideDisabled b e) =
   mapState (setOverrideDisabled b) (processEntry t s e)"
proof (cases rule: processEntry_cases [where e = e and t = t and st = s])
  case skip
  then show ?thesis by (simp add: processEntry_skipped)
next
  case blocked
  then have "processEntry t (mapState (setOverrideDisabled b) s) (setOverrideDisabled b e) =
      mapState (setOverrideDisabled b) s"
    by (auto simp add: processEntry_def lookup_mapState skipped_def setOverrideDisabled_append)
  with blocked(4) show ?thesis by simp
next
  case extend
  let ?f = "setOverrideDisabled b"
  have e: "?f e = e" using extend(1) by (rule setOverrideDisabled_append)
  have a: "appendTo e (lookupEntry (dedup (mapState ?f s)) t (Key e)) =
      appendTo e (lookupEntry (dedup s) t (Key e))"
    by (rule appendTo_cong) (simp_all add: lookup_mapState)
  have fa: "?f (appendTo e (lookupEntry (dedup s) t (Key e))) =
      appendTo e (lookupEntry (dedup s) t (Key e))"
    by (rule setOverrideDisabled_append) (simp add: extend(1))
  have "processEntry t (mapState ?f s) (?f e) =
      (mapState ?f s)\<lparr>dedup := storeEntry (dedup (mapState ?f s)) t (Key e)
         (appendTo e (lookupEntry (dedup s) t (Key e)))\<rparr>"
    unfolding e using extend(1-4) by (simp add: processEntry_def lookup_mapState a)
  then show ?thesis unfolding extend(5) mapState_store fa .
next
  case first
  let ?f = "setOverrideDisabled b"
  from first(1) have ns: "\<not> skipped (?f e)" by simp
  have "processEntry t (mapState ?f s) (?f e) =
      markSeen t (Key e)
        ((mapState ?f s)\<lparr>dedup := storeEntry (dedup (mapState ?f s)) t (Key e) (?f e)\<rparr>)"
    using ns first(2) by (auto simp add: processEntry_def skipped_def)
  then show ?thesis unfolding first(3) mapState_markSeen mapState_store .
qed

lemma foldl_processEntry_mapState:
  "foldl (processEntry t) (mapState (setOverrideDisabled b) s) (map (setOverrideDisabled b) es) =
   mapState (setOverrideDisabled b) (foldl (processEntry t) s es)"
  by (induction es arbitrary: s) (simp_all add: processEntry_mapState)

lemma processDomain_mapState:
  "processDomain (mapState (setOverrideDisabled b) s) (fst te, map (setOverrideDisabled b) (snd te)) =
   mapState (setOverrideDisabled b) (processDomain s te)"
  by (simp add: processDomain_def foldl_processEntry_mapState mapState_initDomain [symmetric])

lemma foldl_processDomain_mapState:
  "foldl processDomain (mapState (setOverrideDisabled b) s)
     (map (\<lambda>te. (fst te, map (setOverrideDisabled b) (snd te))) rs) =
   mapState (setOverrideDisabled b) (foldl processDomain s rs)"
  by (induction rs arbitrary: s) (simp_all add: processDomain_mapState)

lemma dedupLoop_mapState:
  "dedupLoop (mapState (setOverrideDisabled b) s) (mapEntries (setOverrideDisabled b) gs) =
   mapState (setOverrideDisabled b) (dedupLoop s gs)"
  unfolding dedupLoop_def mapEntries_def
  by (induction gs arbitrary: s) (simp_all add: processGPO_def foldl_processDomain_mapState)

lemma emitRules_mapState:
  assumes inv: "mergeInv s"
  shows "emitRules (mapState f s) t = map_option (map f) (emitRules s t)"
proof (cases "dedup s t")
  case None
  then show ?thesis by (simp add: emitRules_def mapState_def)
next
  case (Some m)
  have "lookupEntry (dedup (mapState f s)) t k = f (lookupEntry (dedup s) t k)"
    if "k \<in> set (sort (keys s t))" for k
  proof -
    from that have "k \<in> set (keys s t)" by simp
    with inv obtain e where "entryAt (dedup s) t k = Some e"
      unfolding mergeInv_def by blast
    then show ?thesis by (simp add: lookupEntry_entryAt entryAt_mapState)
  qed
  then have "map (lookupEntry (dedup (mapState f s)) t) (sort (keys s t)) =
      map (f \<circ> lookupEntry (dedup s) t) (sort (keys s t))"
    by (intro map_cong) simp_all
  with Some show ?thesis by (simp add: emitRules_def mapState_def)
qed

lemma GetUniqueRules_setOverrideDisabled:
  "GetUniqueRules (pols\<lparr>GPOs := mapEntries (setOverrideDisabled b) (GPOs pols)\<rparr>) t =
   map_option (map (setOverrideDisabled b)) (GetUniqueRules pols t)"
proof -
  have inv: "mergeInv (dedupLoop initState (GPOs pols))"
    by (rule mergeInv_dedupLoop) (rule mergeInv_initState)
  have "dedupLoop initState (mapEntries (setOverrideDisabled b) (GPOs pols)) =
      mapState (setOverrideDisabled b) (dedupLoop initState (GPOs pols))"
    using dedupLoop_mapState [of b initState "GPOs pols"] by (simp add: mapState_initState)
  then show ?thesis by (simp add: GetUniqueRules_def emitRules_mapState [OF inv])
qed

lemma seenFrom_initDomain: "seenFrom p s \<Longrightarrow> seenFrom p (initDomain t s)"
  by (simp add: seenFrom_def)

lemma seenFrom_processEntry:
  assumes "seenFrom p s"
  shows "seenFrom (p @ [(t, e)]) (processEntry t s e)"
proof (cases rule: processEntry_cases [where e = e and t = t and st = s])
  case skip
  with assms show ?thesis by (auto simp add: seenFrom_def)
next
  case blocked
  with assms show ?thesis by (auto simp add: seenFrom_def)
next
  case extend
  with assms show ?thesis by (auto simp add: seenFrom_def)
next
  case first
  with assms show ?thesis by (auto simp add: seenFrom_def markSeen_def)
qed

lemma first_override_stored:
  assumes "Strategy e \<noteq> StrategyAppend" and "t @ Key e \<notin> seen s"
  shows "entryAt (dedup (processEntry t s e)) t (Key e) = Some e"
  using assms by (simp add: processEntry_def markSeen_def entryAt_storeEntry)

lemma closest_override_kept:
  assumes ov: "Strategy e \<noteq> StrategyAppend"
    and unseen: "\<forall>te \<in> set pre. skipped (snd te) \<or> fst te @ Key (snd te) \<noteq> t @ Key e"
    and vs: "visits gs = pre @ (t, e) # post"
  shows "entryAt (dedup (dedupLoop initState gs)) t (Key e) = Some e"
proof -
  let ?Q = "\<lambda>p s. mergeInv s \<and> seenFrom p s \<and>
      (\<forall>r. p = pre @ (t, e) # r \<longrightarrow> entryAt (dedup s) t (Key e) = Some e)"
  have step: "?Q (p @ [(t', e')]) (processEntry t' s e')" if q: "?Q p s" for p s t' e'
  proof (intro conjI allI impI)
    from q show "mergeInv (processEntry t' s e')" by (simp add: mergeInv_processEntry)
    from q show "seenFrom (p @ [(t', e')]) (processEntry t' s e')"
      by (simp add: seenFrom_processEntry)
  next
    fix r
    assume eq: "p @ [(t', e')] = pre @ (t, e) # r"
    show "entryAt (dedup (processEntry t' s e')) t (Key e) = Some e"
    proof (cases r rule: rev_cases)
      case Nil
      with eq have p: "p = pre" and te: "t' = t" "e' = e" by simp_all
      have "t @ Key e \<notin> seen s"
      proof
        assume "t @ Key e \<in> seen s"
        with q obtain x where "x \<in> set p" "\<not> skipped (snd x)" "fst x @ Key (snd x) = t @ Key e"
          unfolding seenFrom_def by blast
        with unseen p show False by blast
      qed
      with ov show ?thesis unfolding te by (rule first_override_stored)
    next
      case (snoc r' x)
      with eq have "p = pre @ (t, e) # r'" by simp
      with q have "entryAt (dedup s) t (Key e) = Some e" by blast
      with q show ?thesis using ov by (simp add: override_kept)
    qed
  qed
  have "?Q ([] @ visits gs) (dedupLoop initState gs)"
  proof (rule dedupLoop_rule [where Q = ?Q])
    show "?Q [] initState"
      by (intro conjI mergeInv_initState) (simp_all add: seenFrom_def initState_def)
  next
    fix p s t'
    assume "?Q p s"
    then show "?Q p (initDomain t' s)"
      by (simp add: mergeInv_initDomain seenFrom_initDomain)
  next
    fix p s t' e'
    assume "?Q p s"
    then show "?Q (p @ [(t', e')]) (processEntry t' s e')" by (rule step)
  qed
  with vs show ?thesis by simp
qed

text \<open>
  The loop reads the disabled flag of append entries only. Setting the flag of every
  override entry of a policy set to any value \<open>b\<close> changes nothing in the result but
  that flag of the override entries in it. And an override entry, disabled or not,
  that is visited when no earlier entry other than a disabled append entry has marked
  its \<^verbatim>\<open>t+e.Key\<close> as seen, is in the result as it is (with its flag), and is the
  only entry of its key there, whatever farther entries follow.
\<close>

lemma override_flag_not_read:
  "GetUniqueRules (pols\<lparr>GPOs := mapEntries (setOverrideDisabled b) (GPOs pols)\<rparr>) t =
     map_option (map (setOverrideDisabled b)) (GetUniqueRules pols t) \<and>
   (visits (GPOs pols) = pre @ (t, e) # post \<and> Strategy e \<noteq> StrategyAppend \<and>
    (\<forall>te \<in> set pre. (Strategy (snd te) = StrategyAppend \<and> Disabled (snd te)) \<or>
                     fst te @ Key (snd te) \<noteq> t @ Key e) \<longrightarrow>
    e \<in> set (rulesOf (GetUniqueRules pols) t) \<and>
    (\<forall>e' \<in> set (rulesOf (GetUniqueRules pols) t). Key e' = Key e \<longrightarrow> e' = e))"
proof (intro conjI impI)
  show "GetUniqueRules (pols\<lparr>GPOs := mapEntries (setOverrideDisabled b) (GPOs pols)\<rparr>) t =
     map_option (map (setOverrideDisabled b)) (GetUniqueRules pols t)"
    by (rule GetUniqueRules_setOverrideDisabled)
next
  let ?s = "dedupLoop initState (GPOs pols)"
  assume h: "visits (GPOs pols) = pre @ (t, e) # post \<and> Strategy e \<noteq> StrategyAppend \<and>
    (\<forall>te \<in> set pre. (Strategy (snd te) = StrategyAppend \<and> Disabled (snd te)) \<or>
                     fst te @ Key (snd te) \<noteq> t @ Key e)"
  have inv: "mergeInv ?s" by (rule mergeInv_dedupLoop) (rule mergeInv_initState)
  from h have "\<forall>te \<in> set pre. skipped (snd te) \<or> fst te @ Key (snd te) \<noteq> t @ Key e"
    unfolding skipped_def by blast
  with h have at: "entryAt (dedup ?s) t (Key e) = Some e"
    by (intro closest_override_kept [where pre = pre and post = post]) simp_all
  then show "e \<in> set (rulesOf (GetUniqueRules pols) t)"
    by (simp add: GetUniqueRules_def set_emit [OF inv])
  show "\<forall>e' \<in> set (rulesOf (GetUniqueRules pols) t). Key e' = Key e \<longrightarrow> e' = e"
  proof (intro ballI impI)
    fix e'
    assume "e' \<in> set (rulesOf (GetUniqueRules pols) t)" and k: "Key e' = Key e"
    then have "entryAt (dedup ?s) t (Key e') = Some e'"
      by (simp add: GetUniqueRules_def set_emit [OF inv])
    then have "Some e' = entryAt (dedup ?s) t (Key e)" by (simp only: k)
    also note at
    finally show "e' = e" by (simp only: option.inject)
  qed
qed

lemma override_flag_not_read_example:
  "visits (GPOs exDisabledPols) = [] @ (''dconf'', exOverrideDisabled) # [(''dconf'', exAppendY)] \<and>
   Strategy exOverrideDisabled \<noteq> StrategyAppend \<and> Disabled exOverrideDisabled \<and>
   rulesOf (GetUniqueRules exDisabledPols) ''dconf'' = [exOverrideDisabled] \<and>
   rulesOf (GetUniqueRules (exDisabledPols\<lparr>GPOs := mapEntries (setOverrideDisabled False) (GPOs exDisabledPols)\<rparr>))
     ''dconf'' = [exOverrideX]"
proof -
  have a: "visits (GPOs exDisabledPols) = [] @ (''dconf'', exOverrideDisabled) # [(''dconf'', exAppendY)]"
    by (simp add: visits_def exDisabledPols_def gpoOf_def)
  have b: "Strategy exOverrideDisabled \<noteq> StrategyAppend \<and> Disabled exOverrideDisabled"
    by (simp add: exOverrideDisabled_def StrategyAppend_def StrategyOverride_def)
  have c: "rulesOf (GetUniqueRules exDisabledPols) ''dconf'' = [exOverrideDisabled]"
    by (simp add: merge_eval example_defs exOverrideDisabled_def exDisabledPols_def)
  have d: "map (setOverrideDisabled False) [exOverrideDisabled] = [exOverrideX]"
    by (simp add: setOverrideDisabled_def exOverrideDisabled_def exOverrideX_def
        StrategyAppend_def StrategyOverride_def)
  from c have c': "GetUniqueRules exDisabledPols ''dconf'' = Some [exOverrideDisabled]"
    by (simp add: rulesOf_def split: option.splits)
  from override_flag_not_read [where pols = exDisabledPols and b = False
      and t = "''dconf''" and pre = "[]" and e = exOverrideDisabled
      and post = "[(''dconf'', exAppendY)]"] a b c c' d
  show ?thesis by (simp add: rulesOf_def)
qed

text \<open>
  Claim C10, at a policy set in which the \<^verbatim>\<open>t+e.Key\<close> of two different pairs of type
  and key is the same string. \<open>seen\<close> is keyed by that string, \<open>dedup\<close> by the type
  and then the key. The disabled override entry of key \<open>c\<close> and type \<open>ab\<close> in \<open>G2\<close> is
  the only entry of its type and key in the policy set, so the closest one for them.
  The entry of key \<open>bc\<close> and type \<open>a\<close> in \<open>G1\<close>, visited before it, has put the same
  string \<open>abc\<close> into \<open>seen\<close>; the loop takes the entry of \<open>G2\<close> for seen and drops
  it, and the result of type \<open>ab\<close> is empty. It is no matter of the flag: the entry
  is dropped with the flag unset too.
\<close>

theorem seen_key_collision:
  "visits (GPOs exCollisionPols) = [(''a'', exKeyBC), (''ab'', exKeyC)] \<and>
   ''a'' @ Key exKeyBC = ''ab'' @ Key exKeyC \<and>
   Strategy exKeyC = StrategyOverride \<and> Disabled exKeyC \<and>
   rulesOf (GetUniqueRules exCollisionPols) ''a'' = [exKeyBC] \<and>
   rulesOf (GetUniqueRules exCollisionPols) ''ab'' = [] \<and>
   rulesOf (GetUniqueRules
     (exCollisionPols\<lparr>GPOs := mapEntries (setOverrideDisabled False) (GPOs exCollisionPols)\<rparr>))
     ''ab'' = []"
  by (simp add: merge_eval collision_defs mapEntries_def setOverrideDisabled_def)

section \<open>Properties of the orchestrator\<close>

text \<open>
  The choices of the schedules give exactly the interleavings of the two sequences
  (the \<open>shuffles\<close> of the list library), so a statement for every schedule is one
  for every interleaving, with and without a collision of the read and the write of
  the map.
\<close>

lemma append_in_shuffles: "xs @ ys \<in> shuffles xs ys"
  by (induction xs) (simp_all add: Cons_in_shuffles_leftI)

lemma interleave_shuffles: "interleave sched xs ys \<in> shuffles xs ys"
proof (induction sched xs ys rule: interleave.induct)
  case (3 x xs y ys)
  show ?case using append_in_shuffles [of "x # xs" "y # ys"] by simp
next
  case (4 b sched x xs y ys)
  then show ?case
    by (cases b) (simp_all add: Cons_in_shuffles_leftI Cons_in_shuffles_rightI del: shuffles.simps)
qed simp_all

lemma shuffles_interleave:
  "zs \<in> shuffles xs ys \<Longrightarrow> \<exists>sched. interleave sched xs ys = zs"
proof (induction xs ys arbitrary: zs rule: shuffles.induct)
  case (1 ys)
  then show ?case by simp
next
  case (2 xs)
  then show ?case by (cases xs) auto
next
  case (3 x xs y ys)
  from "3.prems" consider zs' where "zs = x # zs'" "zs' \<in> shuffles xs (y # ys)"
    | zs' where "zs = y # zs'" "zs' \<in> shuffles (x # xs) ys"
    by auto
  then show ?case
  proof cases
    case 1
    from "3.IH"(1) [OF 1(2)] obtain sched where "interleave sched xs (y # ys) = zs'" by blast
    with 1(1) have "interleave (True # sched) (x # xs) (y # ys) = zs" by simp
    then show ?thesis by blast
  next
    case 2
    from "3.IH"(2) [OF 2(2)] obtain sched where "interleave sched (x # xs) ys = zs'" by blast
    with 2(1) have "interleave (False # sched) (x # xs) (y # ys) = zs" by simp
    then show ?thesis by blast
  qed
qed

lemma set_interleave: "set (interleave sched xs ys) = set xs \<union> set ys"
  by (induction sched xs ys rule: interleave.induct) auto


lemma firstError_None:
  "firstError evs = None \<longleftrightarrow>
     (\<forall>e. DconfReturn (Some e) \<notin> set evs \<and> PrivilegeReturn (Some e) \<notin> set evs)"
  by (induction evs rule: firstError.induct) auto

lemma waitGroup_fatal:
  "mapRace sched m \<Longrightarrow> waitGroup sched m objectName isComputer pols = [SubscriptionState False]"
  by (simp add: waitGroup_def mapRace_def Let_def)

lemma set_waitGroup:
  assumes "\<not> mapRace sched m"
  shows "set (waitGroup sched m objectName isComputer pols) =
     {DconfCall objectName isComputer (rulesOf (GetUniqueRules pols) ''dconf''),
      DconfReturn (dconf m objectName isComputer (rulesOf (GetUniqueRules pols) ''dconf'')),
      SubscriptionState (fst (getSubcriptionState m)),
      PrivilegeCall objectName isComputer (rulesOf (dispatchedRules m pols) ''privilege''),
      PrivilegeReturn (privilege m objectName isComputer (rulesOf (dispatchedRules m pols) ''privilege''))}
     \<union> (if fst (getSubcriptionState m) then {} else {FilterRules})"
  using assms by (auto simp add: waitGroup_def Let_def set_interleave)

lemma firstError_waitGroup:
  assumes "\<not> mapRace sched m"
  shows "firstError (waitGroup sched m objectName isComputer pols) = None \<longleftrightarrow>
     dconf m objectName isComputer (rulesOf (GetUniqueRules pols) ''dconf'') = None \<and>
     privilege m objectName isComputer (rulesOf (dispatchedRules m pols) ''privilege'') = None"
  unfolding firstError_None set_waitGroup [OF assms]
  by (cases "dconf m objectName isComputer (rulesOf (GetUniqueRules pols) ''dconf'')";
      cases "privilege m objectName isComputer (rulesOf (dispatchedRules m pols) ''privilege'')")
    auto


text \<open>The four ways in which a call ends.\<close>

lemma ApplyPolicies_fatal:
  assumes "mapRace sched m"
  shows "ApplyPolicies sys fs sched m objectName isComputer pols =
     \<lparr>err = None, trace = [SubscriptionState False], files = fs,
      manager = snd (getSubcriptionState m), fatal = True\<rparr>"
  using assms by (simp add: ApplyPolicies_def Let_def waitGroup_fatal)

lemma ApplyPolicies_group_failed:
  assumes "\<not> mapRace sched m"
    and "firstError (waitGroup sched m objectName isComputer pols) = Some e"
  shows "ApplyPolicies sys fs sched m objectName isComputer pols =
     \<lparr>err = OnError ''failed to apply policy to %q'' [objectName] (Some e),
      trace = waitGroup sched m objectName isComputer pols, files = fs,
      manager = snd (getSubcriptionState m), fatal = False\<rparr>"
  using assms by (simp add: ApplyPolicies_def Let_def)

lemma ApplyPolicies_gdm_failed:
  assumes "\<not> mapRace sched m"
    and "firstError (waitGroup sched m objectName isComputer pols) = None"
    and "isComputer" and "gdm m (rulesOf (dispatchedRules m pols) ''gdm'') = Some e"
  shows "ApplyPolicies sys fs sched m objectName isComputer pols =
     \<lparr>err = OnError ''failed to apply policy to %q'' [objectName] (Some e),
      trace = waitGroup sched m objectName isComputer pols @
        [GdmCall (rulesOf (dispatchedRules m pols) ''gdm''), GdmReturn (Some e)],
      files = fs, manager = snd (getSubcriptionState m), fatal = False\<rparr>"
  using assms by (simp add: ApplyPolicies_def Let_def)

lemma ApplyPolicies_saved:
  assumes "\<not> mapRace sched m"
    and "firstError (waitGroup sched m objectName isComputer pols) = None"
    and "isComputer \<longrightarrow> gdm m (rulesOf (dispatchedRules m pols) ''gdm'') = None"
  shows "ApplyPolicies sys fs sched m objectName isComputer pols =
     \<lparr>err = OnError ''failed to apply policy to %q'' [objectName]
              (fst (Save sys fs pols (Join sys (policiesCacheDir m) objectName))),
      trace = waitGroup sched m objectName isComputer pols @
        (if isComputer
         then [GdmCall (rulesOf (dispatchedRules m pols) ''gdm''), GdmReturn None] else []) @
        [SaveCall (Join sys (policiesCacheDir m) objectName)],
      files = snd (Save sys fs pols (Join sys (policiesCacheDir m) objectName)),
      manager = snd (getSubcriptionState m), fatal = False\<rparr>"
  using assms by (cases isComputer) (simp_all add: ApplyPolicies_def Let_def split_def)

lemma ApplyPolicies_cases:
  obtains
    (fatal) "mapRace sched m"
  | (group) e where "\<not> mapRace sched m"
      "firstError (waitGroup sched m objectName isComputer pols) = Some e"
      "\<not> backendsSucceed m objectName isComputer pols"
  | (gdm) e where "\<not> mapRace sched m"
      "firstError (waitGroup sched m objectName isComputer pols) = None"
      "isComputer" "gdm m (rulesOf (dispatchedRules m pols) ''gdm'') = Some e"
      "\<not> backendsSucceed m objectName isComputer pols"
  | (save) "\<not> mapRace sched m"
      "firstError (waitGroup sched m objectName isComputer pols) = None"
      "isComputer \<longrightarrow> gdm m (rulesOf (dispatchedRules m pols) ''gdm'') = None"
      "backendsSucceed m objectName isComputer pols"
proof (cases "mapRace sched m")
  case True
  then show ?thesis by (rule fatal)
next
  case norace: False
  show ?thesis
  proof (cases "firstError (waitGroup sched m objectName isComputer pols)")
    case (Some e)
    moreover from Some have "\<not> backendsSucceed m objectName isComputer pols"
      using firstError_waitGroup [OF norace, of objectName isComputer pols]
      by (auto simp add: backendsSucceed_def)
    ultimately show ?thesis using norace by (intro group)
  next
    case None
    then have ok: "dconf m objectName isComputer (rulesOf (GetUniqueRules pols) ''dconf'') = None \<and>
       privilege m objectName isComputer (rulesOf (dispatchedRules m pols) ''privilege'') = None"
      by (simp add: firstError_waitGroup [OF norace])
    show ?thesis
    proof (cases "isComputer \<and> gdm m (rulesOf (dispatchedRules m pols) ''gdm'') \<noteq> None")
      case True
      then obtain e where "isComputer" "gdm m (rulesOf (dispatchedRules m pols) ''gdm'') = Some e"
        by auto
      moreover from this have "\<not> backendsSucceed m objectName isComputer pols"
        by (simp add: backendsSucceed_def)
      ultimately show ?thesis using None norace by (intro gdm)
    next
      case False
      with ok have "backendsSucceed m objectName isComputer pols"
        by (auto simp add: backendsSucceed_def)
      with None False norace show ?thesis by (intro save) auto
    qed
  qed
qed

lemmas apply_eval =
  ApplyPolicies_def waitGroup_def mapRace_def dispatchedRules_def getSubcriptionState_def
  filterRules_def backendsSucceed_def Save_def NewFromCache_def OnError_def Let_def

lemmas apply_examples =
  exManager_def exDconfFails_def exNoSubscription_def exSys_def exPrivilege_def exPrivilegePols_def
  exOrder_def exCollision_def


lemma trace_ApplyPolicies:
  obtains rest where
    "trace (ApplyPolicies sys fs sched m objectName isComputer pols) =
       waitGroup sched m objectName isComputer pols @ rest"
    "\<forall>ev \<in> set rest. (\<exists>rules. ev = GdmCall rules) \<or> (\<exists>e. ev = GdmReturn e) \<or> (\<exists>p. ev = SaveCall p)"
    "rest \<noteq> [] \<longrightarrow>
       \<not> mapRace sched m \<and> firstError (waitGroup sched m objectName isComputer pols) = None"
    "(\<exists>rules. GdmCall rules \<in> set rest) \<longrightarrow> isComputer"
proof (cases rule: ApplyPolicies_cases
      [where sched = sched and m = m and objectName = objectName and isComputer = isComputer
        and pols = pols])
  case fatal
  have "trace (ApplyPolicies sys fs sched m objectName isComputer pols) =
      waitGroup sched m objectName isComputer pols @ []"
    by (simp add: ApplyPolicies_fatal [OF fatal] waitGroup_fatal [OF fatal])
  then show ?thesis
    by (rule that) simp_all
next
  case (group e)
  have "trace (ApplyPolicies sys fs sched m objectName isComputer pols) =
      waitGroup sched m objectName isComputer pols @ []"
    by (simp add: ApplyPolicies_group_failed [OF group(1,2)])
  then show ?thesis
    by (rule that) simp_all
next
  case (gdm e)
  have "trace (ApplyPolicies sys fs sched m objectName isComputer pols) =
      waitGroup sched m objectName isComputer pols @
        [GdmCall (rulesOf (dispatchedRules m pols) ''gdm''), GdmReturn (Some e)]"
    by (simp only: ApplyPolicies_gdm_failed [OF gdm(1-4)] Outcome.simps)
  then show ?thesis
    by (rule that) (use gdm(1-3) in simp_all)
next
  case save
  have "trace (ApplyPolicies sys fs sched m objectName isComputer pols) =
      waitGroup sched m objectName isComputer pols @
        ((if isComputer
          then [GdmCall (rulesOf (dispatchedRules m pols) ''gdm''), GdmReturn None] else []) @
         [SaveCall (Join sys (policiesCacheDir m) objectName)])"
    by (simp only: ApplyPolicies_saved [OF save(1-3)] Outcome.simps)
  then show ?thesis
    by (rule that) (use save(1,2) in auto)
qed

lemma filter_eq_appendD:
  "filter P xs = ys @ zs \<Longrightarrow> \<exists>us vs. xs = us @ vs \<and> filter P us = ys \<and> filter P vs = zs"
proof (induction ys arbitrary: xs)
  case Nil
  then have "xs = [] @ xs \<and> filter P [] = [] \<and> filter P xs = zs" by simp
  then show ?case by blast
next
  case (Cons y ys)
  then obtain a b where xs: "xs = a @ y # b" and a: "\<forall>u \<in> set a. \<not> P u" and y: "P y"
    and b: "filter P b = ys @ zs"
    by (auto simp add: filter_eq_Cons_iff)
  from Cons.IH [OF b] obtain us vs where "b = us @ vs" "filter P us = ys" "filter P vs = zs"
    by blast
  with xs a y have "xs = (a @ y # us) @ vs \<and> filter P (a @ y # us) = y # ys \<and> filter P vs = zs"
    by simp
  then show ?case by blast
qed

lemma append_split_later:
  assumes "ws @ rest = pre @ x # post" and "x \<notin> set ws"
  shows "set ws \<subseteq> set pre"
proof -
  from assms(1) obtain us where
    "ws = pre @ us \<and> us @ rest = x # post \<or> ws @ us = pre \<and> rest = us @ x # post"
    unfolding append_eq_append_conv2 by blast
  then show ?thesis
  proof
    assume a: "ws = pre @ us \<and> us @ rest = x # post"
    with assms(2) have "us = []" by (cases us) auto
    with a show ?thesis by simp
  next
    assume "ws @ us = pre \<and> rest = us @ x # post"
    then show ?thesis by auto
  qed
qed

text \<open>
  Claim C6. In every call and under every schedule, gdm's \<^verbatim>\<open>ApplyPolicy\<close> is called
  only for a computer and only after the dconf backend has returned without an error:
  the events before the call hold dconf's successful return and no failed one. If the
  dconf backend fails, or the object is not a computer, gdm is never called.
\<close>

theorem gdm_after_dconf:
  "(\<forall>pre rules post.
      trace (ApplyPolicies sys fs sched m objectName isComputer pols) = pre @ GdmCall rules # post \<longrightarrow>
      isComputer \<and> DconfReturn None \<in> set pre \<and> (\<forall>e. DconfReturn (Some e) \<notin> set pre)) \<and>
   (dconf m objectName isComputer (rulesOf (GetUniqueRules pols) ''dconf'') \<noteq> None \<longrightarrow>
      (\<forall>rules. GdmCall rules \<notin> set (trace (ApplyPolicies sys fs sched m objectName isComputer pols)))) \<and>
   (\<not> isComputer \<longrightarrow>
      (\<forall>rules. GdmCall rules \<notin> set (trace (ApplyPolicies sys fs sched m objectName isComputer pols))))"
proof -
  let ?ws = "waitGroup sched m objectName isComputer pols"
  obtain rest where tr: "trace (ApplyPolicies sys fs sched m objectName isComputer pols) = ?ws @ rest"
    and kinds: "\<forall>ev \<in> set rest. (\<exists>rules. ev = GdmCall rules) \<or> (\<exists>e. ev = GdmReturn e) \<or> (\<exists>p. ev = SaveCall p)"
    and ok: "rest \<noteq> [] \<longrightarrow> \<not> mapRace sched m \<and> firstError ?ws = None"
    and comp: "(\<exists>rules. GdmCall rules \<in> set rest) \<longrightarrow> isComputer"
    by (rule trace_ApplyPolicies)
  have nogdm: "GdmCall rules \<notin> set ?ws" for rules
    by (cases "mapRace sched m") (simp_all add: set_waitGroup waitGroup_fatal)
  have called: "isComputer \<and> \<not> mapRace sched m \<and> firstError ?ws = None"
    if "GdmCall rules \<in> set (?ws @ rest)" for rules
  proof -
    from that nogdm have "GdmCall rules \<in> set rest" by simp
    with ok comp show ?thesis by auto
  qed
  show ?thesis unfolding tr
  proof (intro conjI allI impI)
    fix pre rules post
    assume eq: "?ws @ rest = pre @ GdmCall rules # post"
    then have "GdmCall rules \<in> set (?ws @ rest)" by simp
    then have c: "isComputer" and norace: "\<not> mapRace sched m" and f: "firstError ?ws = None"
      using called by blast+
    from c show "isComputer" .
    from f have d: "dconf m objectName isComputer (rulesOf (GetUniqueRules pols) ''dconf'') = None"
      by (simp add: firstError_waitGroup [OF norace])
    have "DconfReturn None \<in> set ?ws" by (simp add: set_waitGroup [OF norace] d)
    moreover from eq nogdm have "set ?ws \<subseteq> set pre" by (rule append_split_later)
    ultimately show "DconfReturn None \<in> set pre" by blast
    fix e
    have "DconfReturn (Some e) \<notin> set ?ws" using f by (simp add: firstError_None)
    moreover have "DconfReturn (Some e) \<notin> set rest" using kinds by auto
    moreover have "set pre \<subseteq> set (?ws @ rest)" unfolding eq by auto
    ultimately show "DconfReturn (Some e) \<notin> set pre" by auto
  next
    fix rules
    assume "dconf m objectName isComputer (rulesOf (GetUniqueRules pols) ''dconf'') \<noteq> None"
    then have "\<not> mapRace sched m \<longrightarrow> firstError ?ws \<noteq> None"
      by (simp add: firstError_waitGroup)
    with called [of rules] show "GdmCall rules \<notin> set (?ws @ rest)" by auto
  next
    fix rules
    assume "\<not> isComputer"
    with called [of rules] show "GdmCall rules \<notin> set (?ws @ rest)" by auto
  qed
qed

theorem gdm_after_dconf_witness:
  "trace (ApplyPolicies exSys Map.empty (exOrder [True, False, True]) exManager ''host'' True exAppendPols) =
     [DconfCall ''host'' True [exMerged], SubscriptionState True, DconfReturn None,
      PrivilegeCall ''host'' True [], PrivilegeReturn None] @ GdmCall [] #
     [GdmReturn None, SaveCall ''/var/cache/adsys/policies/host''] \<and>
   DconfReturn None \<in> set [DconfCall ''host'' True [exMerged], SubscriptionState True,
      DconfReturn None, PrivilegeCall ''host'' True [], PrivilegeReturn None] \<and>
   dconf exDconfFails ''host'' True (rulesOf (GetUniqueRules exAppendPols) ''dconf'') \<noteq> None \<and>
   GdmCall [] \<notin> set (trace (ApplyPolicies exSys Map.empty (exOrder [False, True]) exDconfFails ''host'' True
      exAppendPols))"
proof -
  have a: "trace (ApplyPolicies exSys Map.empty (exOrder [True, False, True]) exManager ''host'' True exAppendPols) =
     [DconfCall ''host'' True [exMerged], SubscriptionState True, DconfReturn None,
      PrivilegeCall ''host'' True [], PrivilegeReturn None] @ GdmCall [] #
     [GdmReturn None, SaveCall ''/var/cache/adsys/policies/host'']"
    by (simp add: apply_eval apply_examples merge_eval example_defs)
  have b: "dconf exDconfFails ''host'' True (rulesOf (GetUniqueRules exAppendPols) ''dconf'') \<noteq> None"
    by (simp add: apply_examples)
  note ok = gdm_after_dconf
    [of exSys Map.empty "exOrder [True, False, True]" exManager "''host''" True exAppendPols]
  note failed = gdm_after_dconf
    [of exSys Map.empty "exOrder [False, True]" exDconfFails "''host''" True exAppendPols]
  from ok [THEN conjunct1, rule_format, OF a]
  have c: "DconfReturn None \<in> set [DconfCall ''host'' True [exMerged], SubscriptionState True,
      DconfReturn None, PrivilegeCall ''host'' True [], PrivilegeReturn None]"
    by (rule conjunct2 [THEN conjunct1])
  from failed [THEN conjunct2, THEN conjunct1, rule_format, OF b]
  have d: "GdmCall [] \<notin> set (trace (ApplyPolicies exSys Map.empty (exOrder [False, True]) exDconfFails
      ''host'' True exAppendPols))" .
  from a c b d show ?thesis by (intro conjI)
qed






lemma firstError_Some:
  "firstError evs = Some e \<Longrightarrow> DconfReturn (Some e) \<in> set evs \<or> PrivilegeReturn (Some e) \<in> set evs"
  by (induction evs rule: firstError.induct) auto

lemma firstError_waitGroup_Some:
  assumes "\<not> mapRace sched m"
    and "firstError (waitGroup sched m objectName isComputer pols) = Some e"
  shows "dconf m objectName isComputer (rulesOf (GetUniqueRules pols) ''dconf'') = Some e \<or>
     privilege m objectName isComputer (rulesOf (dispatchedRules m pols) ''privilege'') = Some e"
  using firstError_Some [OF assms(2)] by (auto simp add: set_waitGroup [OF assms(1)] split: if_splits)





text \<open>
  Claim C8. \<^verbatim>\<open>getSubcriptionState\<close> returns true exactly when the property could
  be read, is a string and is \<open>enabled\<close>; a failed read and a value of another type
  give false. The flag that \<^verbatim>\<open>GetStatus\<close> reads afterwards is the result. The error
  of \<^verbatim>\<open>ApplyPolicies\<close> is nil or the decorated error of a backend or of \<^verbatim>\<open>Save\<close>:
  none comes from the subscription check.
\<close>

theorem subscription_fail_closed:
  "(fst (getSubcriptionState m) \<longleftrightarrow> subcriptionDbus m = Inr (VString ''enabled'')) \<and>
   GetStatus (snd (getSubcriptionState m)) = fst (getSubcriptionState m) \<and>
   err (ApplyPolicies sys fs sched m objectName isComputer pols) \<in>
     OnError ''failed to apply policy to %q'' [objectName] `
       {None,
        dconf m objectName isComputer (rulesOf (GetUniqueRules pols) ''dconf''),
        privilege m objectName isComputer (rulesOf (dispatchedRules m pols) ''privilege''),
        gdm m (rulesOf (dispatchedRules m pols) ''gdm''),
        fst (Save sys fs pols (Join sys (policiesCacheDir m) objectName))}"
proof (intro conjI)
  show "fst (getSubcriptionState m) \<longleftrightarrow> subcriptionDbus m = Inr (VString ''enabled'')"
    by (simp add: getSubcriptionState_def Let_def split: sum.splits Variant.splits)
  show "GetStatus (snd (getSubcriptionState m)) = fst (getSubcriptionState m)"
    by (simp add: getSubcriptionState_def GetStatus_def Let_def)
  show "err (ApplyPolicies sys fs sched m objectName isComputer pols) \<in>
     OnError ''failed to apply policy to %q'' [objectName] `
       {None,
        dconf m objectName isComputer (rulesOf (GetUniqueRules pols) ''dconf''),
        privilege m objectName isComputer (rulesOf (dispatchedRules m pols) ''privilege''),
        gdm m (rulesOf (dispatchedRules m pols) ''gdm''),
        fst (Save sys fs pols (Join sys (policiesCacheDir m) objectName))}"
  proof (cases rule: ApplyPolicies_cases
      [where sched = sched and m = m and objectName = objectName and isComputer = isComputer
        and pols = pols])
    case fatal
    have "err (ApplyPolicies sys fs sched m objectName isComputer pols) =
        OnError ''failed to apply policy to %q'' [objectName] None"
      by (simp add: ApplyPolicies_fatal [OF fatal] OnError_def)
    then show ?thesis by simp
  next
    case (group e)
    from firstError_waitGroup_Some [OF group(1,2)] show ?thesis
      by (auto simp add: ApplyPolicies_group_failed [OF group(1,2)])
  next
    case (gdm e)
    have "err (ApplyPolicies sys fs sched m objectName isComputer pols) =
        OnError ''failed to apply policy to %q'' [objectName]
          (gdm m (rulesOf (dispatchedRules m pols) ''gdm''))"
      by (simp only: ApplyPolicies_gdm_failed [OF gdm(1-4)] Outcome.simps gdm(4))
    then show ?thesis by simp
  next
    case save
    have "err (ApplyPolicies sys fs sched m objectName isComputer pols) =
        OnError ''failed to apply policy to %q'' [objectName]
          (fst (Save sys fs pols (Join sys (policiesCacheDir m) objectName)))"
      by (simp only: ApplyPolicies_saved [OF save(1-3)] Outcome.simps)
    then show ?thesis by simp
  qed
qed

end
